theory Spec2Isabelle
  imports Main "HOL-Library.AList" "HOL-Library.Extended_Nat"
begin

section \<open>The graph engine of graphmaster.py\<close>

text \<open>
  Python dictionaries keep their keys in insertion order, and several operations of the
  Graph class iterate over them, so every dictionary is an association list:
  \<open>map_of d k\<close> is the lookup \<open>d[k]\<close> (\<open>None\<close> where Python raises KeyError),
  \<open>AList.update k v d\<close> is the assignment \<open>d[k] = v\<close> (in place for a present key, at the
  end for a new one) and \<open>dict_keys d\<close> is the iteration order.
  Node identifiers are strings; an attribute mapping is a dictionary of strings.
\<close>

type_synonym node = string
type_synonym attrs = "(string \<times> string) list"

datatype error = KeyError | ValueError | RecursionError

datatype vstate = UNEXPLORED | DISCOVERED | FINISHED

datatype eclass = TREE_EDGE | BACK_EDGE | CROSS_EDGE | FORWARD_EDGE

definition dict_keys :: "('k \<times> 'v) list \<Rightarrow> 'k list" where
  "dict_keys d = map fst d"

definition has_key :: "('k \<times> 'v) list \<Rightarrow> 'k \<Rightarrow> bool" where
  "has_key d k = (k \<in> set (dict_keys d))"

record graph =
  nodes :: "(node \<times> attrs) list"
  edges :: "(node \<times> (node \<times> attrs) list) list"
  directed :: bool
  weighted :: bool
  weight_attribute :: "string option"
  alt_id :: "(string \<times> string) list"
  roots :: "node list"
  leaves :: "node list"

text \<open>\<open>Graph.__init__\<close>\<close>

definition init_graph :: "bool \<Rightarrow> bool \<Rightarrow> string option \<Rightarrow> graph" where
  "init_graph d w wa =
     \<lparr>nodes = [], edges = [], directed = d, weighted = w, weight_attribute = wa,
      alt_id = [], roots = [], leaves = []\<rparr>"

subsection \<open>Storage and mutation\<close>

text \<open>\<open>Graph.add_node\<close>: the updated graph and the returned attribute mapping.\<close>

definition add_node :: "node \<Rightarrow> attrs option \<Rightarrow> graph \<Rightarrow> graph \<times> attrs" where
  "add_node node_id attributes g =
     (case map_of (nodes g) node_id of
        Some a \<Rightarrow> (g, a)
      | None \<Rightarrow>
          (let a = (case attributes of None \<Rightarrow> [] | Some x \<Rightarrow> x);
               g1 = g\<lparr>nodes := AList.update node_id a (nodes g),
                      edges := AList.update node_id [] (edges g)\<rparr>;
               g2 = (if directed g1
                     then g1\<lparr>roots := roots g1 @ [node_id], leaves := leaves g1 @ [node_id]\<rparr>
                     else g1)
           in (g2, a)))"

text \<open>
  \<open>Graph.add_edge\<close>. The two lookups \<open>self.edges[node_id1]\<close> and \<open>self.edges[node_id2]\<close>
  raise KeyError when the adjacency table has no entry for the node.
\<close>

definition add_edge ::
  "node \<Rightarrow> node \<Rightarrow> attrs option \<Rightarrow> attrs option \<Rightarrow> attrs option \<Rightarrow> graph
     \<Rightarrow> error + graph \<times> attrs" where
  "add_edge node_id1 node_id2 attributes node1_attributes node2_attributes g =
     (let g1 = (if \<not> has_key (nodes g) node_id1
                then fst (add_node node_id1 node1_attributes g) else g);
          g2 = (if \<not> has_key (nodes g1) node_id2
                then fst (add_node node_id2 node2_attributes g1) else g1)
      in case map_of (edges g2) node_id1 of
           None \<Rightarrow> Inl KeyError
         | Some adj1 \<Rightarrow>
            (case map_of adj1 node_id2 of
               Some a \<Rightarrow> Inr (g2, a)
             | None \<Rightarrow>
                (let a = (case attributes of None \<Rightarrow> [] | Some x \<Rightarrow> x);
                     g3 = g2\<lparr>edges :=
                            AList.update node_id1 (AList.update node_id2 a adj1) (edges g2)\<rparr>
                 in if \<not> directed g3
                    then (case map_of (edges g3) node_id2 of
                            None \<Rightarrow> Inl KeyError
                          | Some adj2 \<Rightarrow>
                              Inr (g3\<lparr>edges :=
                                     AList.update node_id2 (AList.update node_id1 a adj2)
                                       (edges g3)\<rparr>, a))
                    else
                      (let g4 = (if node_id2 \<in> set (roots g3)
                                 then g3\<lparr>roots := remove1 node_id2 (roots g3)\<rparr> else g3);
                           g5 = (if node_id1 \<in> set (leaves g4)
                                 then g4\<lparr>leaves := remove1 node_id1 (leaves g4)\<rparr> else g4)
                       in Inr (g5, a)))))"

text \<open>
  A graph is populated by a sequence of \<open>add_node\<close> and \<open>add_edge\<close> calls on a fresh
  Graph object.
\<close>

datatype call =
    AddNode node "attrs option"
  | AddEdge node node "attrs option" "attrs option" "attrs option"

fun run_call :: "call \<Rightarrow> graph \<Rightarrow> error + graph" where
  "run_call (AddNode n a) g = Inr (fst (add_node n a g))"
| "run_call (AddEdge u v a ua va) g =
     (case add_edge u v a ua va g of Inl e \<Rightarrow> Inl e | Inr r \<Rightarrow> Inr (fst r))"

fun run_calls :: "call list \<Rightarrow> graph \<Rightarrow> error + graph" where
  "run_calls [] g = Inr g"
| "run_calls (c # cs) g =
     (case run_call c g of Inl e \<Rightarrow> Inl e | Inr g' \<Rightarrow> run_calls cs g')"

definition build :: "bool \<Rightarrow> call list \<Rightarrow> error + graph" where
  "build d cs = run_calls cs (init_graph d False None)"

subsection \<open>Depth-first search\<close>

record dfs_res =
  state :: "(node \<times> vstate) list"
  predecessor :: "(node \<times> node option) list"
  discovered :: "(node \<times> int) list"
  classification :: "((node \<times> node) \<times> eclass) list"
  finished :: "(node \<times> int) list"

text \<open>
  \<open>Graph.dfs_visit\<close> and its loop over \<open>self.edges[vertex]\<close>. The first argument is the
  number of nested calls the interpreter still allows: Python raises RecursionError when
  the recursion is deeper than its limit. \<open>time\<close> is an integer parameter, so the
  increment \<open>time += 1\<close> is local to the call.
\<close>

fun dfs_visit :: "nat \<Rightarrow> graph \<Rightarrow> node \<Rightarrow> int \<Rightarrow> dfs_res \<Rightarrow> error + dfs_res"
and dfs_visit_loop ::
  "nat \<Rightarrow> graph \<Rightarrow> node \<Rightarrow> int \<Rightarrow> node list \<Rightarrow> dfs_res \<Rightarrow> error + dfs_res" where
  "dfs_visit 0 g vertex time S = Inl RecursionError"
| "dfs_visit (Suc depth) g vertex time S =
     (let S1 = S\<lparr>state := AList.update vertex DISCOVERED (state S)\<rparr>;
          time1 = time + 1;
          S2 = S1\<lparr>discovered := AList.update vertex time1 (discovered S1)\<rparr>
      in case map_of (edges g) vertex of
           None \<Rightarrow> Inl KeyError
         | Some adj \<Rightarrow>
            (case dfs_visit_loop depth g vertex time1 (dict_keys adj) S2 of
               Inl e \<Rightarrow> Inl e
             | Inr S3 \<Rightarrow>
                 Inr (S3\<lparr>state := AList.update vertex FINISHED (state S3),
                         finished := AList.update vertex (time1 + 1) (finished S3)\<rparr>)))"
| "dfs_visit_loop depth g vertex time [] S = Inr S"
| "dfs_visit_loop depth g vertex time (v # vs) S =
     (case map_of (state S) v of
        None \<Rightarrow> Inl KeyError
      | Some UNEXPLORED \<Rightarrow>
          (case dfs_visit depth g v time
                  (S\<lparr>predecessor := AList.update v (Some vertex) (predecessor S),
                     classification := AList.update (vertex, v) TREE_EDGE (classification S)\<rparr>) of
             Inl e \<Rightarrow> Inl e
           | Inr S' \<Rightarrow> dfs_visit_loop depth g vertex time vs S')
      | Some DISCOVERED \<Rightarrow>
          dfs_visit_loop depth g vertex time vs
            (S\<lparr>classification := AList.update (vertex, v) BACK_EDGE (classification S)\<rparr>)
      | Some FINISHED \<Rightarrow>
          (case map_of (discovered S) vertex of
             None \<Rightarrow> Inl KeyError
           | Some dv \<Rightarrow>
              (case map_of (discovered S) v of
                 None \<Rightarrow> Inl KeyError
               | Some dw \<Rightarrow>
                   dfs_visit_loop depth g vertex time vs
                     (S\<lparr>classification :=
                          AList.update (vertex, v)
                            (if dv > dw then CROSS_EDGE else FORWARD_EDGE)
                            (classification S)\<rparr>))))"

text \<open>\<open>Graph.dfs\<close>: the initialisation loop, then the loop over all nodes with \<open>time = 0\<close>.\<close>

fun dfs_loop :: "nat \<Rightarrow> graph \<Rightarrow> node list \<Rightarrow> dfs_res \<Rightarrow> error + dfs_res" where
  "dfs_loop depth g [] S = Inr S"
| "dfs_loop depth g (vertex # rest) S =
     (case map_of (state S) vertex of
        None \<Rightarrow> Inl KeyError
      | Some s \<Rightarrow>
          if s = UNEXPLORED
          then (case dfs_visit depth g vertex 0 S of
                  Inl e \<Rightarrow> Inl e
                | Inr S' \<Rightarrow> dfs_loop depth g rest S')
          else dfs_loop depth g rest S)"

fun dfs_init :: "node list \<Rightarrow> dfs_res \<Rightarrow> dfs_res" where
  "dfs_init [] S = S"
| "dfs_init (vertex # rest) S =
     dfs_init rest
       (S\<lparr>state := AList.update vertex UNEXPLORED (state S),
          predecessor := AList.update vertex None (predecessor S)\<rparr>)"

definition dfs :: "nat \<Rightarrow> graph \<Rightarrow> error + dfs_res" where
  "dfs depth g =
     dfs_loop depth g (dict_keys (nodes g))
       (dfs_init (dict_keys (nodes g))
          \<lparr>state = [], predecessor = [], discovered = [], classification = [], finished = []\<rparr>)"

subsection \<open>Breadth-first search\<close>

text \<open>
  \<open>Graph.bfs\<close> returns the triple (state, distance, predecessor); \<open>float('inf')\<close> is
  the infinite extended natural number. \<open>bfs_for\<close> is the loop over \<open>self.edges[u]\<close>,
  \<open>bfs_while\<close> the loop on the queue.
\<close>

type_synonym bfs_st = "(node \<times> vstate) list \<times> (node \<times> enat) list \<times> (node \<times> node option) list"

fun bfs_for :: "node \<Rightarrow> node list \<Rightarrow> bfs_st \<times> node list \<Rightarrow> error + bfs_st \<times> node list" where
  "bfs_for u [] (B, queue) = Inr (B, queue)"
| "bfs_for u (v # vs) ((st, distance, pre), queue) =
     (case map_of st v of
        None \<Rightarrow> Inl KeyError
      | Some s \<Rightarrow>
          if s = UNEXPLORED
          then (case map_of distance u of
                  None \<Rightarrow> Inl KeyError
                | Some du \<Rightarrow>
                    bfs_for u vs
                      ((AList.update v DISCOVERED st, AList.update v (du + 1) distance,
                        AList.update v (Some u) pre), queue @ [v]))
          else bfs_for u vs ((st, distance, pre), queue))"

definition unexplored :: "(node \<times> vstate) list \<Rightarrow> nat" where
  "unexplored st = length (filter (\<lambda>p. snd p = UNEXPLORED) st)"

lemma unexplored_update_le: "unexplored (AList.update k v st) \<le> (if v = UNEXPLORED then Suc (unexplored st) else unexplored st)"
  by (induction st) (auto simp: unexplored_def)

lemma unexplored_update_discover:
  "map_of st k = Some UNEXPLORED \<Longrightarrow> v \<noteq> UNEXPLORED \<Longrightarrow> Suc (unexplored (AList.update k v st)) = unexplored st"
  by (induction st) (auto simp: unexplored_def)

lemma bfs_for_measure:
  "bfs_for u vs ((st, distance, pre), queue) = Inr ((st', distance', pre'), queue') \<Longrightarrow>
     unexplored st' + length queue' = unexplored st + length queue"
proof (induction vs arbitrary: st distance pre queue)
  case Nil
  then show ?case by simp
next
  case (Cons v vs)
  show ?case
  proof (cases "map_of st v")
    case None
    with Cons.prems show ?thesis by simp
  next
    case (Some s)
    show ?thesis
    proof (cases "s = UNEXPLORED")
      case False
      with Some Cons.prems have "bfs_for u vs ((st, distance, pre), queue) = Inr ((st', distance', pre'), queue')"
        by simp
      then show ?thesis by (rule Cons.IH)
    next
      case True
      with Some Cons.prems obtain du where du: "map_of distance u = Some du"
        by (auto split: option.splits)
      with True Some Cons.prems have
        "bfs_for u vs ((AList.update v DISCOVERED st, AList.update v (du + 1) distance,
                        AList.update v (Some u) pre), queue @ [v]) = Inr ((st', distance', pre'), queue')"
        by simp
      from Cons.IH[OF this] have
        "unexplored st' + length queue' = Suc (unexplored (AList.update v DISCOVERED st)) + length queue"
        by simp
      also have "Suc (unexplored (AList.update v DISCOVERED st)) = unexplored st"
        using Some True by (intro unexplored_update_discover) auto
      finally show ?thesis .
    qed
  qed
qed

function bfs_while :: "graph \<Rightarrow> bfs_st \<times> node list \<Rightarrow> error + bfs_st" where
  "bfs_while g (B, []) = Inr B"
| "bfs_while g (B, u # queue) =
     (case map_of (edges g) u of
        None \<Rightarrow> Inl KeyError
      | Some adj \<Rightarrow>
          (case bfs_for u (dict_keys adj) (B, queue) of
             Inl e \<Rightarrow> Inl e
           | Inr ((st, distance, pre), queue') \<Rightarrow>
               bfs_while g ((AList.update u FINISHED st, distance, pre), queue')))"
  by pat_completeness auto
termination
proof (relation "measure (\<lambda>(g, (st, distance, pre), queue). unexplored st + length queue)")
  show "wf (measure (\<lambda>(g, (st, distance, pre), queue). unexplored st + length queue))" by simp
next
  fix g :: graph and B :: bfs_st and u :: node and queue queue' :: "node list"
    and adj :: "(node \<times> attrs) list" and x st distance pre y ya
  assume "bfs_for u (dict_keys adj) (B, queue) = Inr x"
    and "(y, queue') = x" and "(st, ya) = y" and "(distance, pre) = ya"
  then have "bfs_for u (dict_keys adj) (B, queue) = Inr ((st, distance, pre), queue')" by simp
  then have "unexplored st + length queue' = unexplored (fst B) + length queue"
    by (cases B) (auto dest: bfs_for_measure)
  moreover have "unexplored (AList.update u FINISHED st) \<le> unexplored st"
    using unexplored_update_le[of u FINISHED st] by simp
  ultimately show "((g, (AList.update u FINISHED st, distance, pre), queue'), (g, B, u # queue))
       \<in> measure (\<lambda>(g, (st, distance, pre), queue). unexplored st + length queue)"
    by (cases B) auto
qed

definition bfs :: "graph \<Rightarrow> node \<Rightarrow> error + bfs_st" where
  "bfs g start_node_id =
     (let st = map (\<lambda>n. (n, UNEXPLORED)) (dict_keys (nodes g));
          distance = map (\<lambda>n. (n, (\<infinity>::enat))) (dict_keys (nodes g));
          pre = map (\<lambda>n. (n, None)) (dict_keys (nodes g))
      in bfs_while g ((AList.update start_node_id DISCOVERED st,
                       AList.update start_node_id 0 distance, pre), [start_node_id]))"


subsection \<open>Shortest path\<close>

partial_function (option) get_shortest_path_loop ::
  "(node \<times> node option) list \<Rightarrow> node option \<Rightarrow> node list \<Rightarrow> (error + node list) option" where
  "get_shortest_path_loop pre current_node path =
     (case current_node of
        None \<Rightarrow> Some (Inr path)
      | Some c \<Rightarrow>
          (case map_of pre c of
             None \<Rightarrow> Some (Inl KeyError)
           | Some p \<Rightarrow> get_shortest_path_loop pre p (path @ [c])))"

declare get_shortest_path_loop.simps [code]

definition get_shortest_path :: "graph \<Rightarrow> node \<Rightarrow> node \<Rightarrow> (error + node list) option" where
  "get_shortest_path g start_node_id end_node_id =
     (if \<not> has_key (nodes g) start_node_id then Some (Inl ValueError)
      else if \<not> has_key (nodes g) end_node_id then Some (Inl ValueError)
      else case bfs g start_node_id of
             Inl e \<Rightarrow> Some (Inl e)
           | Inr (st, distance, pre) \<Rightarrow>
              (case map_of distance end_node_id of
                 None \<Rightarrow> Some (Inl KeyError)
               | Some d \<Rightarrow>
                   if d = \<infinity> then Some (Inr [])
                   else (case get_shortest_path_loop pre (Some end_node_id) [] of
                           None \<Rightarrow> None
                         | Some (Inl e) \<Rightarrow> Some (Inl e)
                         | Some (Inr path) \<Rightarrow> Some (Inr (rev path)))))"

subsection \<open>Cycle detection\<close>

definition is_acyclic :: "nat \<Rightarrow> graph \<Rightarrow> error + bool" where
  "is_acyclic depth g =
     (case dfs depth g of
        Inl e \<Rightarrow> Inl e
      | Inr res \<Rightarrow>
          Inr (fold (\<lambda>key acy.
                       if map_of (classification res) key = Some BACK_EDGE then False else acy)
                 (dict_keys (classification res)) True))"

subsection \<open>Diameter\<close>

fun max_depth_leaves ::
  "graph \<Rightarrow> node \<Rightarrow> node list \<Rightarrow> (node \<times> int) list \<Rightarrow> (error + (node \<times> int) list) option" where
  "max_depth_leaves g node_start [] depths = Some (Inr depths)"
| "max_depth_leaves g node_start (node_end # rest) depths =
     (let depths0 = AList.update node_start 0 depths
      in case get_shortest_path g node_start node_end of
           None \<Rightarrow> None
         | Some (Inl e) \<Rightarrow> Some (Inl e)
         | Some (Inr path) \<Rightarrow>
             if path \<noteq> []
             then (case map_of depths0 node_start of
                     None \<Rightarrow> Some (Inl KeyError)
                   | Some d \<Rightarrow>
                       max_depth_leaves g node_start rest
                         (AList.update node_start (max d (int (length path) - 1)) depths0))
             else max_depth_leaves g node_start rest depths0)"

fun max_depth_roots ::
  "graph \<Rightarrow> node list \<Rightarrow> (node \<times> int) list \<Rightarrow> (error + (node \<times> int) list) option" where
  "max_depth_roots g [] depths = Some (Inr depths)"
| "max_depth_roots g (node_start # rest) depths =
     (case max_depth_leaves g node_start (leaves g) depths of
        None \<Rightarrow> None
      | Some (Inl e) \<Rightarrow> Some (Inl e)
      | Some (Inr depths') \<Rightarrow> max_depth_roots g rest depths')"

definition max_depth :: "nat \<Rightarrow> graph \<Rightarrow> (error + int) option" where
  "max_depth depth g =
     (case is_acyclic depth g of
        Inl e \<Rightarrow> Some (Inl e)
      | Inr acy \<Rightarrow>
          if acy = False then Some (Inl ValueError)
          else (case max_depth_roots g (roots g) [] of
                  None \<Rightarrow> None
                | Some (Inl e) \<Rightarrow> Some (Inl e)
                | Some (Inr depths) \<Rightarrow>
                    (case map snd depths of
                       [] \<Rightarrow> Some (Inl ValueError)
                     | d # ds \<Rightarrow> Some (Inr (fold max ds d)))))"

subsection \<open>Topological sort\<close>

fun dfs_topological ::
  "nat \<Rightarrow> graph \<Rightarrow> node \<Rightarrow> (node \<times> bool) list \<times> node list
     \<Rightarrow> error + (node \<times> bool) list \<times> node list"
and dfs_topological_loop ::
  "nat \<Rightarrow> graph \<Rightarrow> node list \<Rightarrow> (node \<times> bool) list \<times> node list
     \<Rightarrow> error + (node \<times> bool) list \<times> node list" where
  "dfs_topological 0 g v (visited, stack) = Inl RecursionError"
| "dfs_topological (Suc depth) g v (visited, stack) =
     (case map_of (edges g) v of
        None \<Rightarrow> Inl KeyError
      | Some adj \<Rightarrow>
          (case dfs_topological_loop depth g (dict_keys adj)
                  (AList.update v True visited, stack) of
             Inl e \<Rightarrow> Inl e
           | Inr (visited', stack') \<Rightarrow> Inr (visited', stack' @ [v])))"
| "dfs_topological_loop depth g [] (visited, stack) = Inr (visited, stack)"
| "dfs_topological_loop depth g (neighbor # rest) (visited, stack) =
     (case map_of visited neighbor of
        None \<Rightarrow> Inl KeyError
      | Some b \<Rightarrow>
          if \<not> b
          then (case dfs_topological depth g neighbor (visited, stack) of
                  Inl e \<Rightarrow> Inl e
                | Inr V \<Rightarrow> dfs_topological_loop depth g rest V)
          else dfs_topological_loop depth g rest (visited, stack))"

fun topological_sort_loop ::
  "nat \<Rightarrow> graph \<Rightarrow> node list \<Rightarrow> (node \<times> bool) list \<times> node list
     \<Rightarrow> error + (node \<times> bool) list \<times> node list" where
  "topological_sort_loop depth g [] V = Inr V"
| "topological_sort_loop depth g (n # rest) (visited, stack) =
     (case map_of visited n of
        None \<Rightarrow> Inl KeyError
      | Some b \<Rightarrow>
          if \<not> b
          then (case dfs_topological depth g n (visited, stack) of
                  Inl e \<Rightarrow> Inl e
                | Inr V \<Rightarrow> topological_sort_loop depth g rest V)
          else topological_sort_loop depth g rest (visited, stack))"

definition topological_sort :: "nat \<Rightarrow> graph \<Rightarrow> error + node list" where
  "topological_sort depth g =
     (case is_acyclic depth g of
        Inl e \<Rightarrow> Inl e
      | Inr acy \<Rightarrow>
          if \<not> acy then Inl ValueError
          else (case topological_sort_loop depth g (dict_keys (nodes g))
                       (map (\<lambda>n. (n, False)) (dict_keys (nodes g)), []) of
                  Inl e \<Rightarrow> Inl e
                | Inr (visited, stack) \<Rightarrow> Inr (rev stack)))"

subsection \<open>Directional queries\<close>

definition get_predecessors :: "graph \<Rightarrow> node \<Rightarrow> error + node list" where
  "get_predecessors g node_id =
     (if directed g \<and> has_key (nodes g) node_id
      then Inr (map fst (filter (\<lambda>(n, adj). has_key adj node_id) (edges g)))
      else Inl ValueError)"

partial_function (option) get_descendants_loop ::
  "graph \<Rightarrow> node list \<Rightarrow> node list \<Rightarrow> (error + node list) option" where
  "get_descendants_loop g stack descendants =
     (if stack = [] then Some (Inr descendants)
      else (case map_of (edges g) (last stack) of
              None \<Rightarrow> Some (Inl KeyError)
            | Some adj \<Rightarrow>
                get_descendants_loop g (butlast stack @ dict_keys adj)
                  (descendants @ dict_keys adj)))"

declare get_descendants_loop.simps [code]

definition get_descendants :: "graph \<Rightarrow> node \<Rightarrow> (error + node list) option" where
  "get_descendants g node_id =
     (if directed g \<and> has_key (edges g) node_id
      then get_descendants_loop g [node_id] []
      else Some (Inl ValueError))"

partial_function (option) get_ascendants_loop ::
  "graph \<Rightarrow> node list \<Rightarrow> node list \<Rightarrow> (error + node list) option" where
  "get_ascendants_loop g stack ascendants =
     (if stack = [] then Some (Inr ascendants)
      else (let found = map fst (filter (\<lambda>(n, adj). has_key adj (last stack)) (edges g))
            in get_ascendants_loop g (butlast stack @ found) (ascendants @ found)))"

declare get_ascendants_loop.simps [code]

definition get_ascendants :: "graph \<Rightarrow> node \<Rightarrow> (error + node list) option" where
  "get_ascendants g node_id =
     (if directed g \<and> has_key (nodes g) node_id
      then get_ascendants_loop g [node_id] []
      else Some (Inl ValueError))"


section \<open>Specification vocabulary\<close>

text \<open>
  The edge relation of the adjacency table, the well-formedness of a Graph object (each
  table has distinct keys, the node table and the adjacency table have the same keys,
  every neighbour is a node, and the adjacency of an undirected graph is symmetric) and
  the exactness of the root and leaf lists.
\<close>

definition successors :: "graph \<Rightarrow> node \<Rightarrow> node list" where
  "successors g u = (case map_of (edges g) u of None \<Rightarrow> [] | Some adj \<Rightarrow> dict_keys adj)"

definition has_edge :: "graph \<Rightarrow> node \<Rightarrow> node \<Rightarrow> bool" where
  "has_edge g u v = (v \<in> set (successors g u))"

definition wf_graph :: "graph \<Rightarrow> bool" where
  "wf_graph g \<longleftrightarrow>
     distinct (dict_keys (nodes g)) \<and> distinct (dict_keys (edges g)) \<and>
     set (dict_keys (edges g)) = set (dict_keys (nodes g)) \<and>
     (\<forall>(u, adj) \<in> set (edges g).
        distinct (dict_keys adj) \<and> set (dict_keys adj) \<subseteq> set (dict_keys (nodes g))) \<and>
     (\<not> directed g \<longrightarrow>
        (\<forall>(u, adj) \<in> set (edges g). \<forall>v \<in> set (dict_keys adj). has_edge g v u))"

text \<open>
  The two stages of \<open>add_edge\<close>, named for the proofs: the creation of the missing
  end points, and the insertion of the edge once both exist.
\<close>

definition ensure_nodes :: "node \<Rightarrow> node \<Rightarrow> attrs option \<Rightarrow> attrs option \<Rightarrow> graph \<Rightarrow> graph" where
  "ensure_nodes u v ua va g = fst (add_node v va (fst (add_node u ua g)))"

definition link_nodes :: "node \<Rightarrow> node \<Rightarrow> attrs option \<Rightarrow> graph \<Rightarrow> error + graph \<times> attrs" where
  "link_nodes u v attributes g2 =
     (case map_of (edges g2) u of
           None \<Rightarrow> Inl KeyError
         | Some adj1 \<Rightarrow>
            (case map_of adj1 v of
               Some a \<Rightarrow> Inr (g2, a)
             | None \<Rightarrow>
                (let a = (case attributes of None \<Rightarrow> [] | Some x \<Rightarrow> x);
                     g3 = g2\<lparr>edges := AList.update u (AList.update v a adj1) (edges g2)\<rparr>
                 in if \<not> directed g3
                    then (case map_of (edges g3) v of
                            None \<Rightarrow> Inl KeyError
                          | Some adj2 \<Rightarrow>
                              Inr (g3\<lparr>edges := AList.update v (AList.update u a adj2) (edges g3)\<rparr>, a))
                    else
                      (let g4 = (if v \<in> set (roots g3)
                                 then g3\<lparr>roots := remove1 v (roots g3)\<rparr> else g3);
                           g5 = (if u \<in> set (leaves g4)
                                 then g4\<lparr>leaves := remove1 u (leaves g4)\<rparr> else g4)
                       in Inr (g5, a)))))"

definition payload :: "attrs option \<Rightarrow> attrs" where
  "payload a = (case a of None \<Rightarrow> [] | Some x \<Rightarrow> x)"

definition roots_leaves_exact :: "graph \<Rightarrow> bool" where
  "roots_leaves_exact g \<longleftrightarrow>
     distinct (roots g) \<and>
     set (roots g) = {n \<in> set (dict_keys (nodes g)). \<not> (\<exists>u. has_edge g u n)} \<and>
     distinct (leaves g) \<and>
     set (leaves g) = {n \<in> set (dict_keys (nodes g)). \<not> (\<exists>v. has_edge g n v)}"

text \<open>Reachability is the reflexive transitive closure of the edge relation; a path is a
  non-empty sequence of nodes joined by edges.\<close>

definition edge_rel :: "graph \<Rightarrow> (node \<times> node) set" where
  "edge_rel g = {(u, v). has_edge g u v}"

definition is_path :: "graph \<Rightarrow> node \<Rightarrow> node list \<Rightarrow> node \<Rightarrow> bool" where
  "is_path g s path t \<longleftrightarrow>
     path \<noteq> [] \<and> hd path = s \<and> last path = t \<and> successively (has_edge g) path"

text \<open>
  The invariant of the queue loop of \<open>bfs\<close>, on the three tables read as maps and the
  list \<open>L\<close> of the discovered nodes that are not finished (the node being expanded first,
  then the queue): distances along \<open>L\<close> never decrease and differ by at most one, every
  explored node is reachable from the start node and, the start node apart, has a
  predecessor one step closer, and the edges leaving a finished node satisfy the
  triangle property.
\<close>

definition dv :: "(node \<rightharpoonup> enat) \<Rightarrow> node \<Rightarrow> enat" where
  "dv D v = (case D v of None \<Rightarrow> \<infinity> | Some d \<Rightarrow> d)"

definition bfs_inv ::
  "graph \<Rightarrow> node \<Rightarrow> (node \<rightharpoonup> vstate) \<Rightarrow> (node \<rightharpoonup> enat) \<Rightarrow> (node \<rightharpoonup> node option) \<Rightarrow> node list
     \<Rightarrow> bool" where
  "bfs_inv g s S D P L \<longleftrightarrow>
     dom S = set (dict_keys (nodes g)) \<and> dom D = set (dict_keys (nodes g)) \<and>
     dom P = set (dict_keys (nodes g)) \<and>
     S s \<noteq> None \<and> S s \<noteq> Some UNEXPLORED \<and> D s = Some 0 \<and> P s = Some None \<and>
     (\<forall>v. S v = Some UNEXPLORED \<longrightarrow> D v = Some \<infinity> \<and> P v = Some None) \<and>
     (\<forall>v. S v \<noteq> None \<and> S v \<noteq> Some UNEXPLORED \<longrightarrow> dv D v \<noteq> \<infinity> \<and> (s, v) \<in> (edge_rel g)\<^sup>*) \<and>
     (\<forall>v. S v \<noteq> None \<and> S v \<noteq> Some UNEXPLORED \<and> v \<noteq> s \<longrightarrow>
        (\<exists>u. P v = Some (Some u) \<and> has_edge g u v \<and> S u \<noteq> None \<and> S u \<noteq> Some UNEXPLORED \<and>
             dv D v = dv D u + 1)) \<and>
     distinct L \<and> (\<forall>v. S v = Some DISCOVERED \<longleftrightarrow> v \<in> set L) \<and>
     sorted_wrt (\<lambda>a b. dv D a \<le> dv D b) L \<and>
     (\<forall>x \<in> set L. \<forall>y \<in> set L. dv D y \<le> dv D x + 1) \<and>
     (\<forall>w. S w = Some FINISHED \<longrightarrow> (\<forall>x \<in> set L. dv D w \<le> dv D x)) \<and>
     (\<forall>u v. S u = Some FINISHED \<and> has_edge g u v \<longrightarrow>
        S v \<noteq> Some UNEXPLORED \<and> dv D v \<le> dv D u + 1)"

subsection \<open>Example graphs\<close>

definition edge_graph :: graph where
  "edge_graph =
     \<lparr>nodes = [(''A'', []), (''B'', [])],
      edges = [(''A'', [(''B'', [(''weight'', ''5'')])]), (''B'', [])],
      directed = True, weighted = False, weight_attribute = None, alt_id = [],
      roots = [''A''], leaves = [''B'']\<rparr>"

definition depth_graph :: graph where
  "depth_graph =
     \<lparr>nodes = [(''A'', []), (''B'', []), (''C'', []), (''D'', [])],
      edges = [(''A'', [(''B'', []), (''D'', [])]), (''B'', [(''C'', [])]),
               (''C'', []), (''D'', [])],
      directed = True, weighted = False, weight_attribute = None, alt_id = [],
      roots = [''A''], leaves = [''C'', ''D'']\<rparr>"

definition cycle_graph :: graph where
  "cycle_graph =
     \<lparr>nodes = [(''A'', []), (''B'', []), (''C'', [])],
      edges = [(''A'', [(''B'', [])]), (''B'', [(''C'', [])]), (''C'', [(''A'', [])])],
      directed = True, weighted = False, weight_attribute = None, alt_id = [],
      roots = [], leaves = []\<rparr>"

definition split_graph :: graph where
  "split_graph =
     \<lparr>nodes = [(''A'', []), (''B'', []), (''C'', []), (''D'', [])],
      edges = [(''A'', [(''B'', [])]), (''B'', []), (''C'', [(''D'', [])]), (''D'', [])],
      directed = True, weighted = False, weight_attribute = None, alt_id = [],
      roots = [''A'', ''C''], leaves = [''B'', ''D'']\<rparr>"

section \<open>Properties\<close>

lemma get_shortest_path_loop_None [simp]:
  "get_shortest_path_loop pre None path = Some (Inr path)"
  by (subst get_shortest_path_loop.simps) simp

lemma get_shortest_path_loop_Some [simp]:
  "get_shortest_path_loop pre (Some c) path =
     (case map_of pre c of
        None \<Rightarrow> Some (Inl KeyError)
      | Some p \<Rightarrow> get_shortest_path_loop pre p (path @ [c]))"
  by (subst get_shortest_path_loop.simps) simp


lemma has_key_iff: "has_key d k \<longleftrightarrow> map_of d k \<noteq> None"
  by (simp add: has_key_def dict_keys_def map_of_eq_None_iff)

lemma dict_keys_update:
  "dict_keys (AList.update k v d) = (if has_key d k then dict_keys d else dict_keys d @ [k])"
  by (simp add: dict_keys_def has_key_def update_keys)

lemma set_dict_keys_update [simp]:
  "set (dict_keys (AList.update k v d)) = insert k (set (dict_keys d))"
  by (auto simp: dict_keys_update has_key_def)

lemma distinct_dict_keys_update [simp]:
  "distinct (dict_keys d) \<Longrightarrow> distinct (dict_keys (AList.update k v d))"
  by (simp add: dict_keys_def distinct_update)

lemma in_dict_keys_iff: "k \<in> set (dict_keys d) \<longleftrightarrow> map_of d k \<noteq> None"
  by (simp add: dict_keys_def map_of_eq_None_iff)

lemma has_edge_iff:
  "has_edge g u v \<longleftrightarrow> (\<exists>adj. map_of (edges g) u = Some adj \<and> v \<in> set (dict_keys adj))"
  by (cases "map_of (edges g) u") (simp_all add: has_edge_def successors_def)

lemma wf_graph_iff:
  "wf_graph g \<longleftrightarrow>
     distinct (dict_keys (nodes g)) \<and> distinct (dict_keys (edges g)) \<and>
     set (dict_keys (edges g)) = set (dict_keys (nodes g)) \<and>
     (\<forall>u. distinct (successors g u) \<and> set (successors g u) \<subseteq> set (dict_keys (nodes g))) \<and>
     (\<not> directed g \<longrightarrow> (\<forall>u v. has_edge g u v \<longrightarrow> has_edge g v u))"
proof (cases "distinct (dict_keys (edges g))")
  case False
  then show ?thesis by (simp add: wf_graph_def)
next
  case True
  then have eq: "((u, adj) \<in> set (edges g)) = (map_of (edges g) u = Some adj)" for u adj
    by (simp add: dict_keys_def)
  have D: "(\<forall>(u, adj) \<in> set (edges g).
               distinct (dict_keys adj) \<and> set (dict_keys adj) \<subseteq> set (dict_keys (nodes g))) \<longleftrightarrow>
           (\<forall>u. distinct (successors g u) \<and> set (successors g u) \<subseteq> set (dict_keys (nodes g)))"
    (is "?L \<longleftrightarrow> ?R")
  proof
    assume L: ?L
    show ?R
    proof
      fix u
      show "distinct (successors g u) \<and> set (successors g u) \<subseteq> set (dict_keys (nodes g))"
      proof (cases "map_of (edges g) u")
        case None
        then show ?thesis by (simp add: successors_def)
      next
        case (Some adj)
        then have "(u, adj) \<in> set (edges g)" by (simp add: eq)
        with L have "distinct (dict_keys adj) \<and> set (dict_keys adj) \<subseteq> set (dict_keys (nodes g))"
          by blast
        with Some show ?thesis by (simp add: successors_def)
      qed
    qed
  next
    assume R: ?R
    show ?L
    proof (intro ballI, clarify)
      fix u adj assume "(u, adj) \<in> set (edges g)"
      then have "successors g u = dict_keys adj" by (simp add: successors_def eq)
      with R[rule_format, of u]
      show "distinct (dict_keys adj) \<and> set (dict_keys adj) \<subseteq> set (dict_keys (nodes g))"
        by simp
    qed
  qed
  have E: "(\<forall>(u, adj) \<in> set (edges g). \<forall>v \<in> set (dict_keys adj). has_edge g v u) \<longleftrightarrow>
           (\<forall>u v. has_edge g u v \<longrightarrow> has_edge g v u)"
    (is "?L \<longleftrightarrow> ?R")
  proof
    assume L: ?L
    show ?R
    proof (intro allI impI)
      fix u v assume "has_edge g u v"
      then obtain adj where "map_of (edges g) u = Some adj" "v \<in> set (dict_keys adj)"
        by (auto simp: has_edge_iff)
      then have "(u, adj) \<in> set (edges g)" by (simp add: eq)
      with L \<open>v \<in> set (dict_keys adj)\<close> show "has_edge g v u" by blast
    qed
  next
    assume R: ?R
    show ?L
    proof (intro ballI, clarify)
      fix u adj v assume "(u, adj) \<in> set (edges g)" "v \<in> set (dict_keys adj)"
      then have "has_edge g u v" by (auto simp: has_edge_iff eq)
      with R show "has_edge g v u" by blast
    qed
  qed
  show ?thesis
    unfolding wf_graph_def D E ..
qed

lemma wf_init_graph: "wf_graph (init_graph d w wa)"
  by (simp add: wf_graph_def init_graph_def dict_keys_def)

lemma add_node_old: "map_of (nodes g) n = Some b \<Longrightarrow> add_node n a g = (g, b)"
  by (simp add: add_node_def)

lemma add_node_new:
  "map_of (nodes g) n = None \<Longrightarrow>
   fst (add_node n a g) =
     g\<lparr>nodes := AList.update n (case a of None \<Rightarrow> [] | Some x \<Rightarrow> x) (nodes g),
       edges := AList.update n [] (edges g),
       roots := (if directed g then roots g @ [n] else roots g),
       leaves := (if directed g then leaves g @ [n] else leaves g)\<rparr>"
  by (simp add: add_node_def Let_def)

lemma successors_add_node:
  assumes "wf_graph g"
  shows "successors (fst (add_node n a g)) u = successors g u"
proof (cases "map_of (nodes g) n")
  case (Some b)
  then show ?thesis by (simp add: add_node_old)
next
  case None
  then have "n \<notin> set (dict_keys (edges g))"
    using assms by (simp add: wf_graph_iff in_dict_keys_iff)
  then have "map_of (edges g) n = None" by (simp add: in_dict_keys_iff)
  then show ?thesis
    using None by (simp add: add_node_new successors_def update_conv' dict_keys_def)
qed

lemma has_edge_add_node:
  "wf_graph g \<Longrightarrow> has_edge (fst (add_node n a g)) u v = has_edge g u v"
  by (simp add: has_edge_def successors_add_node)

lemma nodes_add_node:
  "set (dict_keys (nodes (fst (add_node n a g)))) = insert n (set (dict_keys (nodes g)))"
  by (cases "map_of (nodes g) n")
     (auto simp: add_node_new add_node_old in_dict_keys_iff)

lemma directed_add_node [simp]: "directed (fst (add_node n a g)) = directed g"
  by (cases "map_of (nodes g) n") (simp_all add: add_node_new add_node_old)

lemma wf_add_node:
  assumes "wf_graph g"
  shows "wf_graph (fst (add_node n a g))"
proof (cases "map_of (nodes g) n")
  case (Some b)
  then show ?thesis using assms by (simp add: add_node_old)
next
  case None
  note w = assms[unfolded wf_graph_iff]
  have "distinct (dict_keys (nodes (fst (add_node n a g))))"
    "distinct (dict_keys (edges (fst (add_node n a g))))"
    "set (dict_keys (edges (fst (add_node n a g)))) = set (dict_keys (nodes (fst (add_node n a g))))"
    using w None by (simp_all add: add_node_new)
  moreover have "\<forall>u. distinct (successors (fst (add_node n a g)) u) \<and>
      set (successors (fst (add_node n a g)) u) \<subseteq> set (dict_keys (nodes (fst (add_node n a g))))"
    using w by (auto simp: successors_add_node[OF assms] nodes_add_node)
  moreover have "\<not> directed (fst (add_node n a g)) \<longrightarrow>
      (\<forall>u v. has_edge (fst (add_node n a g)) u v \<longrightarrow> has_edge (fst (add_node n a g)) v u)"
    using w by (simp add: has_edge_add_node[OF assms])
  ultimately show ?thesis
    unfolding wf_graph_iff[of "fst (add_node n a g)"] by blast
qed

lemma add_node_present: "has_key (nodes g) n \<Longrightarrow> fst (add_node n a g) = g"
  by (cases "map_of (nodes g) n") (simp_all add: has_key_iff add_node_old)

lemma has_key_ensure_nodes:
  "has_key (nodes (ensure_nodes u v ua va g)) u" "has_key (nodes (ensure_nodes u v ua va g)) v"
  by (simp_all add: ensure_nodes_def has_key_def nodes_add_node)

lemma add_edge_link:
  "add_edge u v a ua va g = link_nodes u v a (ensure_nodes u v ua va g)"
proof -
  have 1: "(if \<not> has_key (nodes g) u then fst (add_node u ua g) else g) = fst (add_node u ua g)"
    by (simp add: add_node_present)
  have 2: "(if \<not> has_key (nodes g') v then fst (add_node v va g') else g') = fst (add_node v va g')" for g'
    by (simp add: add_node_present)
  show ?thesis
    unfolding add_edge_def link_nodes_def Let_def 1 2 ensure_nodes_def ..
qed

lemma successors_edges_update:
  "successors (g\<lparr>edges := AList.update k adj (edges g)\<rparr>) x =
     (if x = k then dict_keys adj else successors g x)"
  by (simp add: successors_def update_conv')

lemma map_of_edges_wf:
  assumes "wf_graph g" "has_key (nodes g) u"
  obtains adj where "map_of (edges g) u = Some adj" "dict_keys adj = successors g u"
proof -
  from assms have "u \<in> set (dict_keys (edges g))"
    by (simp add: wf_graph_iff has_key_def)
  then obtain adj where "map_of (edges g) u = Some adj"
    by (auto simp: in_dict_keys_iff)
  then show ?thesis using that by (simp add: successors_def)
qed

lemma link_nodes_old:
  assumes "map_of (edges g) u = Some adj" "map_of adj v = Some a0"
  shows "link_nodes u v a g = Inr (g, a0)"
  using assms by (simp add: link_nodes_def)

lemma link_nodes_new:
  assumes wf: "wf_graph g" and u: "has_key (nodes g) u" and v: "has_key (nodes g) v"
    and new: "\<not> has_edge g u v"
  obtains g' where "link_nodes u v a g = Inr (g', payload a)"
    "nodes g' = nodes g" "directed g' = directed g"
    "roots g' = (if directed g then remove1 v (roots g) else roots g)"
    "leaves g' = (if directed g then remove1 u (leaves g) else leaves g)"
    "set (dict_keys (edges g')) = set (dict_keys (edges g))"
    "distinct (dict_keys (edges g'))"
    "\<And>x. successors g' x =
       (if x = u then successors g u @ [v]
        else if x = v \<and> \<not> directed g then successors g v @ [u]
        else successors g x)"
proof -
  note w = wf[unfolded wf_graph_iff]
  obtain adj1 where adj1: "map_of (edges g) u = Some adj1" "dict_keys adj1 = successors g u"
    using map_of_edges_wf[OF wf u] .
  obtain adj2 where adj2: "map_of (edges g) v = Some adj2" "dict_keys adj2 = successors g v"
    using map_of_edges_wf[OF wf v] .
  from new adj1 have nv: "map_of adj1 v = None"
    using in_dict_keys_iff[of v adj1] by (simp add: has_edge_def)
  have ku: "u \<in> set (dict_keys (edges g))" and kv: "v \<in> set (dict_keys (edges g))"
    using adj1 adj2 by (simp_all add: in_dict_keys_iff)
  let ?a = "payload a"
  let ?E3 = "AList.update u (AList.update v ?a adj1) (edges g)"
  let ?g3 = "g\<lparr>edges := ?E3\<rparr>"
  have k3: "dict_keys (AList.update v ?a adj1) = successors g u @ [v]"
    using nv adj1 by (simp add: dict_keys_update has_key_iff)
  show ?thesis
  proof (cases "directed g")
    case True
    let ?g' = "?g3\<lparr>roots := remove1 v (roots g), leaves := remove1 u (leaves g)\<rparr>"
    have "link_nodes u v a g = Inr (?g', ?a)"
      using adj1 nv True by (simp add: link_nodes_def payload_def Let_def remove1_idem)
    moreover have "\<And>x. successors ?g' x =
       (if x = u then successors g u @ [v]
        else if x = v \<and> \<not> directed g then successors g v @ [u]
        else successors g x)"
      using True k3 by (simp add: successors_def update_conv')
    moreover have "set (dict_keys (edges ?g')) = set (dict_keys (edges g))"
      using ku by auto
    moreover have "distinct (dict_keys (edges ?g'))"
      using w by simp
    ultimately show ?thesis using True by (intro that[of ?g']) simp_all
  next
    case False
    let ?adj2' = "if v = u then AList.update v ?a adj1 else adj2"
    have m3: "map_of ?E3 v = Some ?adj2'"
      using adj2 by (simp add: update_conv')
    let ?g' = "?g3\<lparr>edges := AList.update v (AList.update u ?a ?adj2') ?E3\<rparr>"
    have "link_nodes u v a g = Inr (?g', ?a)"
      using adj1 nv False m3 by (simp add: link_nodes_def payload_def Let_def)
    moreover
    have nu: "v \<noteq> u \<Longrightarrow> map_of adj2 u = None"
    proof -
      assume "v \<noteq> u"
      have "\<not> has_edge g v u" using w new False by blast
      then show ?thesis using adj2 in_dict_keys_iff[of u adj2] by (simp add: has_edge_def)
    qed
    have k4: "dict_keys (AList.update u ?a ?adj2') =
        (if v = u then successors g u @ [v] else successors g v @ [u])"
      using nu adj2 k3 by (auto simp: dict_keys_update has_key_iff update_conv')
    have "\<And>x. successors ?g' x =
       (if x = u then successors g u @ [v]
        else if x = v \<and> \<not> directed g then successors g v @ [u]
        else successors g x)"
      using False k3 k4 by (auto simp: successors_def update_conv')
    moreover have "set (dict_keys (edges ?g')) = set (dict_keys (edges g))"
      using ku kv by auto
    moreover have "distinct (dict_keys (edges ?g'))"
      using w by simp
    ultimately show ?thesis using False by (intro that[of ?g']) simp_all
  qed
qed

lemma link_nodes_wf:
  assumes wf: "wf_graph g" and u: "has_key (nodes g) u" and v: "has_key (nodes g) v"
  obtains g' r where "link_nodes u v a g = Inr (g', r)" "wf_graph g'"
    "nodes g' = nodes g" "directed g' = directed g"
    "\<And>x y. has_edge g' x y \<longleftrightarrow>
        has_edge g x y \<or> (x = u \<and> y = v) \<or> (\<not> directed g \<and> x = v \<and> y = u)"
    "roots g' = (if directed g \<and> \<not> has_edge g u v then remove1 v (roots g) else roots g)"
    "leaves g' = (if directed g \<and> \<not> has_edge g u v then remove1 u (leaves g) else leaves g)"
proof (cases "has_edge g u v")
  case True
  note w = wf[unfolded wf_graph_iff]
  obtain adj1 where adj1: "map_of (edges g) u = Some adj1" "dict_keys adj1 = successors g u"
    using map_of_edges_wf[OF wf u] .
  from True adj1 obtain a0 where "map_of adj1 v = Some a0"
    using in_dict_keys_iff[of v adj1] by (auto simp: has_edge_def)
  with adj1 have "link_nodes u v a g = Inr (g, a0)" by (simp add: link_nodes_old)
  moreover have "\<And>x y. has_edge g x y \<longleftrightarrow>
        has_edge g x y \<or> (x = u \<and> y = v) \<or> (\<not> directed g \<and> x = v \<and> y = u)"
    using True w by blast
  ultimately show ?thesis using wf True by (intro that[of g a0]) simp_all
next
  case False
  note w = wf[unfolded wf_graph_iff]
  from link_nodes_new[OF wf u v False, of a] obtain g' where g':
    "link_nodes u v a g = Inr (g', payload a)"
    "nodes g' = nodes g" "directed g' = directed g"
    "roots g' = (if directed g then remove1 v (roots g) else roots g)"
    "leaves g' = (if directed g then remove1 u (leaves g) else leaves g)"
    "set (dict_keys (edges g')) = set (dict_keys (edges g))"
    "distinct (dict_keys (edges g'))"
    "\<And>x. successors g' x =
       (if x = u then successors g u @ [v]
        else if x = v \<and> \<not> directed g then successors g v @ [u]
        else successors g x)"
    by blast
  have he: "\<And>x y. has_edge g' x y \<longleftrightarrow>
        has_edge g x y \<or> (x = u \<and> y = v) \<or> (\<not> directed g \<and> x = v \<and> y = u)"
    by (auto simp: has_edge_def g'(8))
  have uN: "u \<in> set (dict_keys (nodes g))" and vN: "v \<in> set (dict_keys (nodes g))"
    using u v by (simp_all add: has_key_def)
  have nvu: "\<not> directed g \<Longrightarrow> u \<notin> set (successors g v)"
    using w False by (auto simp: has_edge_def)
  have "\<forall>x. distinct (successors g' x) \<and> set (successors g' x) \<subseteq> set (dict_keys (nodes g'))"
    using w False uN vN nvu by (auto simp: g'(8) g'(2) has_edge_def)
  moreover have "\<not> directed g' \<longrightarrow> (\<forall>x y. has_edge g' x y \<longrightarrow> has_edge g' y x)"
    unfolding he g'(3) using w by blast
  ultimately have "wf_graph g'"
    unfolding wf_graph_iff[of g'] using w g' by simp
  then show ?thesis using g' he False by (intro that[of g' "payload a"]) simp_all
qed

lemma ensure_nodes_wf:
  assumes "wf_graph g"
  shows "wf_graph (ensure_nodes u v ua va g)"
    and "has_edge (ensure_nodes u v ua va g) x y = has_edge g x y"
    and "directed (ensure_nodes u v ua va g) = directed g"
    and "set (dict_keys (nodes (ensure_nodes u v ua va g))) = insert u (insert v (set (dict_keys (nodes g))))"
  using assms
  by (auto simp: ensure_nodes_def wf_add_node has_edge_add_node nodes_add_node)

lemma add_edge_wf:
  assumes wf: "wf_graph g"
  obtains g' r where "add_edge u v a ua va g = Inr (g', r)" "wf_graph g'"
    "directed g' = directed g"
    "set (dict_keys (nodes g')) = insert u (insert v (set (dict_keys (nodes g))))"
    "\<And>x y. has_edge g' x y \<longleftrightarrow>
        has_edge g x y \<or> (x = u \<and> y = v) \<or> (\<not> directed g \<and> x = v \<and> y = u)"
proof -
  let ?g2 = "ensure_nodes u v ua va g"
  note e = ensure_nodes_wf[OF wf, of u v ua va]
  obtain g' r where g': "link_nodes u v a ?g2 = Inr (g', r)" "wf_graph g'"
    "nodes g' = nodes ?g2" "directed g' = directed ?g2"
    "\<And>x y. has_edge g' x y \<longleftrightarrow>
        has_edge ?g2 x y \<or> (x = u \<and> y = v) \<or> (\<not> directed ?g2 \<and> x = v \<and> y = u)"
    by (rule link_nodes_wf[OF e(1) has_key_ensure_nodes(1) has_key_ensure_nodes(2), where a = a]) blast
  show ?thesis
  proof (rule that[of g' r])
    show "add_edge u v a ua va g = Inr (g', r)" using g'(1) by (simp add: add_edge_link)
    show "wf_graph g'" by (rule g'(2))
    show "directed g' = directed g" using g'(4) e(3) by simp
    show "set (dict_keys (nodes g')) = insert u (insert v (set (dict_keys (nodes g))))"
      unfolding g'(3) by (rule e(4))
    show "has_edge g' x y \<longleftrightarrow>
        has_edge g x y \<or> (x = u \<and> y = v) \<or> (\<not> directed g \<and> x = v \<and> y = u)" for x y
      unfolding g'(5) e(2) e(3) ..
  qed
qed

lemma run_call_wf:
  assumes "wf_graph g"
  obtains g' where "run_call c g = Inr g'" "wf_graph g'" "directed g' = directed g"
proof (cases c)
  case (AddNode n a)
  show ?thesis
    by (rule that[of "fst (add_node n a g)"]) (simp_all add: AddNode wf_add_node assms)
next
  case (AddEdge u v a ua va)
  show ?thesis
  proof (rule add_edge_wf[OF assms, where u = u and v = v and a = a and ua = ua and va = va])
    fix g' r
    assume "add_edge u v a ua va g = Inr (g', r)" "wf_graph g'" "directed g' = directed g"
    then show thesis by (intro that[of g']) (simp_all add: AddEdge)
  qed
qed

lemma run_calls_wf:
  "wf_graph g \<Longrightarrow> \<exists>g'. run_calls cs g = Inr g' \<and> wf_graph g' \<and> directed g' = directed g"
proof (induction cs arbitrary: g)
  case Nil
  then show ?case by simp
next
  case (Cons c cs)
  show ?case
  proof (rule run_call_wf[OF Cons.prems, where c = c])
    fix g1
    assume g1: "run_call c g = Inr g1" "wf_graph g1" "directed g1 = directed g"
    from Cons.IH[OF g1(2)] obtain g' where
      "run_calls cs g1 = Inr g'" "wf_graph g'" "directed g' = directed g1" by blast
    with g1 show ?thesis by simp
  qed
qed

lemma build_wf: "\<exists>g. build d cs = Inr g \<and> wf_graph g \<and> directed g = d"
  using run_calls_wf[OF wf_init_graph, of cs d False None]
  by (simp add: build_def init_graph_def)

lemma roots_leaves_exact_init: "roots_leaves_exact (init_graph d w wa)"
  by (simp add: roots_leaves_exact_def init_graph_def dict_keys_def)

lemma has_edge_in_nodes:
  assumes "wf_graph g" "has_edge g u v"
  shows "u \<in> set (dict_keys (nodes g))" "v \<in> set (dict_keys (nodes g))"
proof -
  note w = assms(1)[unfolded wf_graph_iff]
  from assms(2) obtain adj where "map_of (edges g) u = Some adj"
    by (auto simp: has_edge_iff)
  then have "u \<in> set (dict_keys (edges g))" by (simp add: in_dict_keys_iff)
  with w show "u \<in> set (dict_keys (nodes g))" by simp
  from assms(2) w show "v \<in> set (dict_keys (nodes g))" by (auto simp: has_edge_def)
qed

lemma add_node_roots_leaves:
  assumes wf: "wf_graph g" and d: "directed g" and ok: "roots_leaves_exact g"
  shows "roots_leaves_exact (fst (add_node n a g))"
proof (cases "map_of (nodes g) n")
  case (Some b)
  then show ?thesis using ok by (simp add: add_node_old)
next
  case None
  let ?g' = "fst (add_node n a g)"
  have nN: "n \<notin> set (dict_keys (nodes g))" using None by (simp add: in_dict_keys_iff)
  have noin: "\<not> has_edge g u n" for u using has_edge_in_nodes(2)[OF wf, of u n] nN by blast
  have noout: "\<not> has_edge g n v" for v using has_edge_in_nodes(1)[OF wf, of n v] nN by blast
  have r: "roots ?g' = roots g @ [n]" and l: "leaves ?g' = leaves g @ [n]"
    using None d by (simp_all add: add_node_new)
  have N: "set (dict_keys (nodes ?g')) = insert n (set (dict_keys (nodes g)))"
    by (rule nodes_add_node)
  note ok' = ok[unfolded roots_leaves_exact_def]
  have nr: "n \<notin> set (roots g)" and nl: "n \<notin> set (leaves g)"
    using ok' nN by auto
  show ?thesis
    unfolding roots_leaves_exact_def r l N has_edge_add_node[OF wf]
    using ok' nr nl noin noout by auto
qed

lemma link_nodes_roots_leaves:
  assumes wf: "wf_graph g" and u: "has_key (nodes g) u" and v: "has_key (nodes g) v"
    and d: "directed g" and ok: "roots_leaves_exact g"
    and res: "link_nodes u v a g = Inr (g', r)"
  shows "roots_leaves_exact g'"
proof (rule link_nodes_wf[OF wf u v, where a = a])
  fix g'' r'
  assume g'': "link_nodes u v a g = Inr (g'', r')" "wf_graph g''" "nodes g'' = nodes g"
    "directed g'' = directed g"
    "\<And>x y. has_edge g'' x y \<longleftrightarrow>
        has_edge g x y \<or> (x = u \<and> y = v) \<or> (\<not> directed g \<and> x = v \<and> y = u)"
    "roots g'' = (if directed g \<and> \<not> has_edge g u v then remove1 v (roots g) else roots g)"
    "leaves g'' = (if directed g \<and> \<not> has_edge g u v then remove1 u (leaves g) else leaves g)"
  from g''(1) res have eq: "g'' = g'" by simp
  note ok' = ok[unfolded roots_leaves_exact_def]
  have uN: "u \<in> set (dict_keys (nodes g))" and vN: "v \<in> set (dict_keys (nodes g))"
    using u v by (simp_all add: has_key_def)
  show "roots_leaves_exact g'"
  proof (cases "has_edge g u v")
    case True
    then have "\<And>x y. has_edge g'' x y \<longleftrightarrow> has_edge g x y" using g''(5) d by blast
    then show ?thesis
      unfolding eq[symmetric] roots_leaves_exact_def g''(3,6,7) using ok' True by simp
  next
    case False
    have he: "\<And>x y. has_edge g'' x y \<longleftrightarrow> has_edge g x y \<or> (x = u \<and> y = v)"
      using g''(5) d by blast
    have "set (remove1 v (roots g)) = {n \<in> set (dict_keys (nodes g)). \<not> (\<exists>x. has_edge g x n \<or> (x = u \<and> n = v))}"
      using ok' by (auto simp: set_remove1_eq)
    moreover have "set (remove1 u (leaves g)) = {n \<in> set (dict_keys (nodes g)). \<not> (\<exists>y. has_edge g n y \<or> (n = u \<and> y = v))}"
      using ok' by (auto simp: set_remove1_eq)
    ultimately show ?thesis
      unfolding eq[symmetric] roots_leaves_exact_def g''(3,6,7) he using ok' False d
      by (simp add: distinct_remove1)
  qed
qed

lemma ensure_nodes_roots_leaves:
  assumes "wf_graph g" "directed g" "roots_leaves_exact g"
  shows "roots_leaves_exact (ensure_nodes u v ua va g)"
  unfolding ensure_nodes_def
  using assms by (intro add_node_roots_leaves wf_add_node) simp_all

lemma run_call_roots_leaves:
  assumes wf: "wf_graph g" and d: "directed g" and ok: "roots_leaves_exact g"
    and res: "run_call c g = Inr g'"
  shows "roots_leaves_exact g'"
proof (cases c)
  case (AddNode n a)
  with res have "g' = fst (add_node n a g)" by simp
  then show ?thesis using add_node_roots_leaves[OF wf d ok] by simp
next
  case (AddEdge u v a ua va)
  let ?g2 = "ensure_nodes u v ua va g"
  from res AddEdge obtain r where "add_edge u v a ua va g = Inr (g', r)"
    by (auto split: sum.splits)
  then have "link_nodes u v a ?g2 = Inr (g', r)" by (simp add: add_edge_link)
  then show ?thesis
    using link_nodes_roots_leaves[OF ensure_nodes_wf(1)[OF wf] has_key_ensure_nodes _
        ensure_nodes_roots_leaves[OF wf d ok], of u v ua va a g' r]
    by (simp add: ensure_nodes_wf(3)[OF wf] d)
qed

lemma run_calls_roots_leaves:
  "wf_graph g \<Longrightarrow> directed g \<Longrightarrow> roots_leaves_exact g \<Longrightarrow> run_calls cs g = Inr g' \<Longrightarrow>
     roots_leaves_exact g'"
proof (induction cs arbitrary: g)
  case Nil
  then show ?case by simp
next
  case (Cons c cs)
  from Cons.prems(4) obtain g1 where g1: "run_call c g = Inr g1" "run_calls cs g1 = Inr g'"
    by (auto split: sum.splits)
  have "wf_graph g1" "directed g1"
    using run_call_wf[OF Cons.prems(1), of c] g1(1) Cons.prems(2) by auto
  moreover have "roots_leaves_exact g1"
    by (rule run_call_roots_leaves[OF Cons.prems(1-3) g1(1)])
  ultimately show ?case using Cons.IH g1(2) by blast
qed


subsection \<open>Breadth-first search: invariant of the queue loop\<close>

lemma dv_upd: "dv (D(v \<mapsto> d)) x = (if x = v then d else dv D x)"
  by (simp add: dv_def)

lemma bfs_invD:
  assumes "bfs_inv g s S D P L"
  shows "dom S = set (dict_keys (nodes g))" "dom D = set (dict_keys (nodes g))"
    "dom P = set (dict_keys (nodes g))"
    "S s \<noteq> None" "S s \<noteq> Some UNEXPLORED" "D s = Some 0" "P s = Some None"
    "\<And>v. S v = Some UNEXPLORED \<Longrightarrow> D v = Some \<infinity> \<and> P v = Some None"
    "\<And>v. S v \<noteq> None \<Longrightarrow> S v \<noteq> Some UNEXPLORED \<Longrightarrow> dv D v \<noteq> \<infinity> \<and> (s, v) \<in> (edge_rel g)\<^sup>*"
    "\<And>v. S v \<noteq> None \<Longrightarrow> S v \<noteq> Some UNEXPLORED \<Longrightarrow> v \<noteq> s \<Longrightarrow>
        (\<exists>u. P v = Some (Some u) \<and> has_edge g u v \<and> S u \<noteq> None \<and> S u \<noteq> Some UNEXPLORED \<and>
             dv D v = dv D u + 1)"
    "distinct L" "\<And>v. S v = Some DISCOVERED \<longleftrightarrow> v \<in> set L"
    "sorted_wrt (\<lambda>a b. dv D a \<le> dv D b) L"
    "\<And>x y. x \<in> set L \<Longrightarrow> y \<in> set L \<Longrightarrow> dv D y \<le> dv D x + 1"
    "\<And>w x. S w = Some FINISHED \<Longrightarrow> x \<in> set L \<Longrightarrow> dv D w \<le> dv D x"
    "\<And>u v. S u = Some FINISHED \<Longrightarrow> has_edge g u v \<Longrightarrow>
        S v \<noteq> Some UNEXPLORED \<and> dv D v \<le> dv D u + 1"
  using assms unfolding bfs_inv_def by blast+

lemma bfs_inv_discover:
  assumes inv: "bfs_inv g s S D P (u # q)"
    and e: "has_edge g u v" and un: "S v = Some UNEXPLORED"
  shows "bfs_inv g s (S(v \<mapsto> DISCOVERED)) (D(v \<mapsto> dv D u + 1)) (P(v \<mapsto> Some u)) (u # q @ [v])"
proof -
  note i = bfs_invD[OF inv]
  let ?S = "S(v \<mapsto> DISCOVERED)" and ?D = "D(v \<mapsto> dv D u + 1)" and ?P = "P(v \<mapsto> Some u)"
  have vN: "v \<in> set (dict_keys (nodes g))" using i(1) un by auto
  have Su: "S u = Some DISCOVERED" using i(12)[of u] by simp
  have uv: "u \<noteq> v" using Su un by auto
  have vs: "v \<noteq> s" using i(5) un by auto
  have vL: "v \<notin> set (u # q)" using i(12)[of v] un by simp
  have du: "dv D u \<noteq> \<infinity>" using i(9)[of u] Su by simp
  have dvD: "dv ?D x = (if x = v then dv D u + 1 else dv D x)" for x by (simp add: dv_upd)
  have hd_le: "\<forall>x \<in> set (u # q). dv D u \<le> dv D x" using i(13) by auto
  have le_hd: "\<forall>x \<in> set (u # q). dv D x \<le> dv D u + 1" using i(14)[of u] by simp
  have ur: "(s, u) \<in> (edge_rel g)\<^sup>*" using i(9)[of u] Su by simp
  have 1: "dom ?S = set (dict_keys (nodes g))" "dom ?D = set (dict_keys (nodes g))"
    "dom ?P = set (dict_keys (nodes g))"
    using i(1,2,3) vN by auto
  have 2: "?S s \<noteq> None \<and> ?S s \<noteq> Some UNEXPLORED \<and> ?D s = Some 0 \<and> ?P s = Some None"
    using i(4-7) vs by simp
  have 3: "\<forall>x. ?S x = Some UNEXPLORED \<longrightarrow> ?D x = Some \<infinity> \<and> ?P x = Some None"
    using i(8) by simp
  have 4: "\<forall>x. ?S x \<noteq> None \<and> ?S x \<noteq> Some UNEXPLORED \<longrightarrow> dv ?D x \<noteq> \<infinity> \<and> (s, x) \<in> (edge_rel g)\<^sup>*"
  proof (intro allI impI)
    fix x assume x: "?S x \<noteq> None \<and> ?S x \<noteq> Some UNEXPLORED"
    show "dv ?D x \<noteq> \<infinity> \<and> (s, x) \<in> (edge_rel g)\<^sup>*"
    proof (cases "x = v")
      case True
      have "(u, v) \<in> edge_rel g" using e by (simp add: edge_rel_def)
      with ur have "(s, v) \<in> (edge_rel g)\<^sup>*" by (rule rtrancl_into_rtrancl)
      moreover have "dv D u + 1 \<noteq> \<infinity>" using du by (cases "dv D u") (simp_all add: one_enat_def)
      ultimately show ?thesis using True by (simp add: dvD)
    next
      case False
      then show ?thesis using x i(9)[of x] by (simp add: dvD)
    qed
  qed
  have 5: "\<forall>x. ?S x \<noteq> None \<and> ?S x \<noteq> Some UNEXPLORED \<and> x \<noteq> s \<longrightarrow>
        (\<exists>y. ?P x = Some (Some y) \<and> has_edge g y x \<and> ?S y \<noteq> None \<and> ?S y \<noteq> Some UNEXPLORED \<and>
             dv ?D x = dv ?D y + 1)"
  proof (intro allI impI)
    fix x assume x: "?S x \<noteq> None \<and> ?S x \<noteq> Some UNEXPLORED \<and> x \<noteq> s"
    show "\<exists>y. ?P x = Some (Some y) \<and> has_edge g y x \<and> ?S y \<noteq> None \<and> ?S y \<noteq> Some UNEXPLORED \<and>
             dv ?D x = dv ?D y + 1"
    proof (cases "x = v")
      case True
      then show ?thesis using e Su uv by (intro exI[of _ u]) (simp add: dvD)
    next
      case False
      with x i(10)[of x] obtain y where y: "P x = Some (Some y)" "has_edge g y x" "S y \<noteq> None"
        "S y \<noteq> Some UNEXPLORED" "dv D x = dv D y + 1"
        by auto
      then have "y \<noteq> v" using un by auto
      with y False show ?thesis by (intro exI[of _ y]) (simp add: dvD)
    qed
  qed
  have 6: "distinct (u # q @ [v])" using i(11) vL by auto
  have 7: "\<forall>x. ?S x = Some DISCOVERED \<longleftrightarrow> x \<in> set (u # q @ [v])"
    using i(12) by auto
  have 8: "sorted_wrt (\<lambda>a b. dv ?D a \<le> dv ?D b) (u # q @ [v])"
  proof -
    have a: "sorted_wrt (\<lambda>a b. dv ?D a \<le> dv ?D b) (u # q)"
    proof -
      have "sorted_wrt (\<lambda>a b. dv D a \<le> dv D b) (u # q)" using i(13) by simp
      then show ?thesis
        by (rule sorted_wrt_mono_rel[rotated]) (use vL in \<open>auto simp: dvD\<close>)
    qed
    have "\<forall>x \<in> set (u # q). dv ?D x \<le> dv ?D v"
      using le_hd vL by (auto simp: dvD)
    with a have "sorted_wrt (\<lambda>a b. dv ?D a \<le> dv ?D b) ((u # q) @ [v])"
      unfolding sorted_wrt_append by simp
    then show ?thesis by simp
  qed
  have 9: "\<forall>x \<in> set (u # q @ [v]). \<forall>y \<in> set (u # q @ [v]). dv ?D y \<le> dv ?D x + 1"
  proof (intro ballI)
    fix x y assume x: "x \<in> set (u # q @ [v])" and y: "y \<in> set (u # q @ [v])"
    show "dv ?D y \<le> dv ?D x + 1"
    proof (cases "x = v")
      case xv: True
      show ?thesis
      proof (cases "y = v")
        case True
        with xv show ?thesis by (simp add: dvD)
      next
        case False
        with y have "y \<in> set (u # q)" by auto
        with le_hd have "dv D y \<le> dv D u + 1" by blast
        also have "\<dots> \<le> dv D u + 1 + 1" by simp
        finally show ?thesis using xv False by (simp add: dvD)
      qed
    next
      case xv: False
      with x have xq: "x \<in> set (u # q)" by auto
      show ?thesis
      proof (cases "y = v")
        case True
        have "dv D u \<le> dv D x" using hd_le xq by blast
        then have "dv D u + 1 \<le> dv D x + 1" by (rule add_right_mono)
        then show ?thesis using True xv by (simp add: dvD)
      next
        case False
        with y have "y \<in> set (u # q)" by auto
        with i(14) xq have "dv D y \<le> dv D x + 1" by simp
        then show ?thesis using False xv by (simp add: dvD)
      qed
    qed
  qed
  have 10: "\<forall>w. ?S w = Some FINISHED \<longrightarrow> (\<forall>x \<in> set (u # q @ [v]). dv ?D w \<le> dv ?D x)"
  proof (intro allI impI ballI)
    fix w x assume w: "?S w = Some FINISHED" and x: "x \<in> set (u # q @ [v])"
    then have wv: "w \<noteq> v" and Sw: "S w = Some FINISHED" by (auto split: if_splits)
    from i(15)[OF Sw, of u] have wu: "dv D w \<le> dv D u" by simp
    show "dv ?D w \<le> dv ?D x"
    proof (cases "x = v")
      case True
      have "dv D w \<le> dv D u + 1" using wu by (meson add_increasing2 order.trans zero_le)
      then show ?thesis using True wv by (simp add: dvD)
    next
      case False
      with x have "x \<in> set (u # q)" by auto
      with i(15)[OF Sw] have "dv D w \<le> dv D x" by simp
      then show ?thesis using False wv by (simp add: dvD)
    qed
  qed
  have 11: "\<forall>a b. ?S a = Some FINISHED \<and> has_edge g a b \<longrightarrow>
        ?S b \<noteq> Some UNEXPLORED \<and> dv ?D b \<le> dv ?D a + 1"
  proof (intro allI impI)
    fix a b assume ab: "?S a = Some FINISHED \<and> has_edge g a b"
    then have av: "a \<noteq> v" and Sa: "S a = Some FINISHED" by (auto split: if_splits)
    from i(16)[OF Sa, of b] ab have b: "S b \<noteq> Some UNEXPLORED" "dv D b \<le> dv D a + 1" by blast+
    then have "b \<noteq> v" using un by auto
    with b av show "?S b \<noteq> Some UNEXPLORED \<and> dv ?D b \<le> dv ?D a + 1" by (simp add: dvD)
  qed
  show ?thesis
    unfolding bfs_inv_def using 1 2 3 4 5 6 7 8 9 10 11 by blast
qed

lemma bfs_inv_finish:
  assumes inv: "bfs_inv g s S D P (u # q)"
    and nbrs: "\<And>v. has_edge g u v \<Longrightarrow> S v \<noteq> Some UNEXPLORED \<and> dv D v \<le> dv D u + 1"
  shows "bfs_inv g s (S(u \<mapsto> FINISHED)) D P q"
proof -
  note i = bfs_invD[OF inv]
  let ?S = "S(u \<mapsto> FINISHED)"
  have Su: "S u = Some DISCOVERED" using i(12)[of u] by simp
  have uq: "u \<notin> set q" using i(11) by simp
  have hd_le: "\<forall>x \<in> set q. dv D u \<le> dv D x" using i(13) by auto
  have 1: "dom ?S = set (dict_keys (nodes g))" using i(1) Su by auto
  have 2: "?S s \<noteq> None \<and> ?S s \<noteq> Some UNEXPLORED" using i(4,5) by simp
  have 3: "\<forall>x. ?S x = Some UNEXPLORED \<longrightarrow> D x = Some \<infinity> \<and> P x = Some None"
    using i(8) by simp
  have 4: "\<forall>x. ?S x \<noteq> None \<and> ?S x \<noteq> Some UNEXPLORED \<longrightarrow> dv D x \<noteq> \<infinity> \<and> (s, x) \<in> (edge_rel g)\<^sup>*"
    using i(9) Su by (auto split: if_splits)
  have 5: "\<forall>x. ?S x \<noteq> None \<and> ?S x \<noteq> Some UNEXPLORED \<and> x \<noteq> s \<longrightarrow>
        (\<exists>y. P x = Some (Some y) \<and> has_edge g y x \<and> ?S y \<noteq> None \<and> ?S y \<noteq> Some UNEXPLORED \<and>
             dv D x = dv D y + 1)"
  proof (intro allI impI)
    fix x assume x: "?S x \<noteq> None \<and> ?S x \<noteq> Some UNEXPLORED \<and> x \<noteq> s"
    then have "S x \<noteq> None" "S x \<noteq> Some UNEXPLORED" "x \<noteq> s"
      using Su by (auto split: if_splits)
    from i(10)[OF this] obtain y where "P x = Some (Some y)" "has_edge g y x" "S y \<noteq> None"
        "S y \<noteq> Some UNEXPLORED" "dv D x = dv D y + 1" by blast
    then show "\<exists>y. P x = Some (Some y) \<and> has_edge g y x \<and> ?S y \<noteq> None \<and> ?S y \<noteq> Some UNEXPLORED \<and>
             dv D x = dv D y + 1"
      by (intro exI[of _ y]) simp
  qed
  have 6: "distinct q" using i(11) by simp
  have 7: "\<forall>x. ?S x = Some DISCOVERED \<longleftrightarrow> x \<in> set q"
    using i(12) uq by auto
  have 8: "sorted_wrt (\<lambda>a b. dv D a \<le> dv D b) q" using i(13) by simp
  have 9: "\<forall>x \<in> set q. \<forall>y \<in> set q. dv D y \<le> dv D x + 1" using i(14) by simp
  have 10: "\<forall>w. ?S w = Some FINISHED \<longrightarrow> (\<forall>x \<in> set q. dv D w \<le> dv D x)"
  proof (intro allI impI ballI)
    fix w x assume w: "?S w = Some FINISHED" and x: "x \<in> set q"
    show "dv D w \<le> dv D x"
    proof (cases "w = u")
      case True
      then show ?thesis using hd_le x by blast
    next
      case False
      with w have "S w = Some FINISHED" by simp
      from i(15)[OF this, of x] x show ?thesis by simp
    qed
  qed
  have 11: "\<forall>a b. ?S a = Some FINISHED \<and> has_edge g a b \<longrightarrow>
        ?S b \<noteq> Some UNEXPLORED \<and> dv D b \<le> dv D a + 1"
  proof (intro allI impI)
    fix a b assume ab: "?S a = Some FINISHED \<and> has_edge g a b"
    have "S b \<noteq> Some UNEXPLORED \<and> dv D b \<le> dv D a + 1"
    proof (cases "a = u")
      case True
      then show ?thesis using nbrs[of b] ab by simp
    next
      case False
      with ab have "S a = Some FINISHED" by simp
      from i(16)[OF this, of b] ab show ?thesis by simp
    qed
    then show "?S b \<noteq> Some UNEXPLORED \<and> dv D b \<le> dv D a + 1" by simp
  qed
  show ?thesis
    unfolding bfs_inv_def using 1 i(2,3) 2 i(6,7) 3 4 5 6 7 8 9 10 11 by blast
qed

lemma map_of_const_map:
  "map_of (map (\<lambda>n. (n, c)) ks) v = (if v \<in> set ks then Some c else None)"
  by (induction ks) auto

lemma bfs_inv_init:
  assumes s: "s \<in> set (dict_keys (nodes g))"
  shows "bfs_inv g s
     (map_of (AList.update s DISCOVERED (map (\<lambda>n. (n, UNEXPLORED)) (dict_keys (nodes g)))))
     (map_of (AList.update s 0 (map (\<lambda>n. (n, \<infinity>)) (dict_keys (nodes g)))))
     (map_of (map (\<lambda>n. (n, None)) (dict_keys (nodes g)))) [s]"
  unfolding bfs_inv_def update_conv'
  using s
  by (auto simp: map_of_const_map dv_def dom_def simp del: not_infinity_eq split: if_splits)

lemma bfs_for_inv:
  assumes "wf_graph g"
    and "bfs_inv g s (map_of st) (map_of distance) (map_of pre) (u # q)"
    and "\<forall>v \<in> set vs. has_edge g u v"
    and "\<forall>v \<in> X. map_of st v \<noteq> Some UNEXPLORED \<and>
                 dv (map_of distance) v \<le> dv (map_of distance) u + 1"
  shows "\<exists>st' distance' pre' q'.
     bfs_for u vs ((st, distance, pre), q) = Inr ((st', distance', pre'), q') \<and>
     bfs_inv g s (map_of st') (map_of distance') (map_of pre') (u # q') \<and>
     (\<forall>v \<in> X \<union> set vs. map_of st' v \<noteq> Some UNEXPLORED \<and>
                 dv (map_of distance') v \<le> dv (map_of distance') u + 1)"
  using assms
proof (induction vs arbitrary: st distance pre q X)
  case Nil
  then show ?case by simp
next
  case (Cons v vs)
  note i = bfs_invD[OF Cons.prems(2)]
  let ?S = "map_of st" and ?D = "map_of distance" and ?P = "map_of pre"
  have e: "has_edge g u v" using Cons.prems(3) by simp
  have Su: "?S u = Some DISCOVERED" using i(12)[of u] by simp
  obtain du where du: "?D u = Some du"
    using i(1,2) Su by (metis domD domI)
  then have dvu: "dv ?D u = du" by (simp add: dv_def)
  show ?case
  proof (cases "?S v = Some UNEXPLORED")
    case True
    let ?st1 = "AList.update v DISCOVERED st"
    let ?d1 = "AList.update v (du + 1) distance"
    let ?p1 = "AList.update v (Some u) pre"
    have inv1: "bfs_inv g s (map_of ?st1) (map_of ?d1) (map_of ?p1) (u # (q @ [v]))"
      using bfs_inv_discover[OF Cons.prems(2) e True] dvu by (simp add: update_conv')
    have uv: "u \<noteq> v" using Su True by auto
    have X1: "\<forall>x \<in> insert v X. map_of ?st1 x \<noteq> Some UNEXPLORED \<and>
                 dv (map_of ?d1) x \<le> dv (map_of ?d1) u + 1"
    proof
      fix x assume x: "x \<in> insert v X"
      show "map_of ?st1 x \<noteq> Some UNEXPLORED \<and> dv (map_of ?d1) x \<le> dv (map_of ?d1) u + 1"
      proof (cases "x = v")
        case xv: True
        then show ?thesis using uv dvu by (simp add: update_conv' dv_upd)
      next
        case False
        with x Cons.prems(4) have "?S x \<noteq> Some UNEXPLORED \<and> dv ?D x \<le> dv ?D u + 1" by blast
        then show ?thesis using False uv by (simp add: update_conv' dv_upd)
      qed
    qed
    from Cons.IH[OF Cons.prems(1) inv1 _ X1] Cons.prems(3)
    obtain st' distance' pre' q' where r:
      "bfs_for u vs ((?st1, ?d1, ?p1), q @ [v]) = Inr ((st', distance', pre'), q')"
      "bfs_inv g s (map_of st') (map_of distance') (map_of pre') (u # q')"
      "\<forall>v \<in> insert v X \<union> set vs. map_of st' v \<noteq> Some UNEXPLORED \<and>
                 dv (map_of distance') v \<le> dv (map_of distance') u + 1"
      by auto
    have "bfs_for u (v # vs) ((st, distance, pre), q) = Inr ((st', distance', pre'), q')"
      using True du r(1) by simp
    with r(2,3) show ?thesis by auto
  next
    case False
    have vN: "?S v \<noteq> None"
      using has_edge_in_nodes(2)[OF Cons.prems(1) e] i(1) by blast
    have Xv: "dv ?D v \<le> dv ?D u + 1"
    proof (cases "?S v = Some DISCOVERED")
      case True
      then have "v \<in> set (u # q)" using i(12)[of v] by simp
      from i(14)[OF _ this, of u] show ?thesis by simp
    next
      case nd: False
      with False vN have "?S v = Some FINISHED" by (cases "?S v") (auto intro: vstate.exhaust)
      from i(15)[OF this, of u] have "dv ?D v \<le> dv ?D u" by simp
      then show ?thesis by (meson add_increasing2 order.trans zero_le)
    qed
    have X1: "\<forall>x \<in> insert v X. ?S x \<noteq> Some UNEXPLORED \<and> dv ?D x \<le> dv ?D u + 1"
      using False Xv Cons.prems(4) by blast
    from Cons.IH[OF Cons.prems(1) Cons.prems(2) _ X1] Cons.prems(3)
    obtain st' distance' pre' q' where r:
      "bfs_for u vs ((st, distance, pre), q) = Inr ((st', distance', pre'), q')"
      "bfs_inv g s (map_of st') (map_of distance') (map_of pre') (u # q')"
      "\<forall>v \<in> insert v X \<union> set vs. map_of st' v \<noteq> Some UNEXPLORED \<and>
                 dv (map_of distance') v \<le> dv (map_of distance') u + 1"
      by auto
    obtain sv where sv: "?S v = Some sv" "sv \<noteq> UNEXPLORED" using vN False by auto
    have "bfs_for u (v # vs) ((st, distance, pre), q) = Inr ((st', distance', pre'), q')"
      using sv r(1) by simp
    with r(2,3) show ?thesis by auto
  qed
qed

lemma bfs_while_inv:
  assumes wf: "wf_graph g"
  shows "bfs_inv g s (map_of st) (map_of distance) (map_of pre) queue \<Longrightarrow>
     \<exists>st' distance' pre'.
        bfs_while g ((st, distance, pre), queue) = Inr (st', distance', pre') \<and>
        bfs_inv g s (map_of st') (map_of distance') (map_of pre') []"
proof (induction "unexplored st + length queue" arbitrary: st distance pre queue rule: less_induct)
  case less
  show ?case
  proof (cases queue)
    case Nil
    with less.prems show ?thesis by simp
  next
    case (Cons u q)
    note inv = less.prems[unfolded Cons]
    note i = bfs_invD[OF inv]
    have Su: "map_of st u = Some DISCOVERED" using i(12)[of u] by simp
    then have "has_key (nodes g) u" using i(1) by (auto simp: has_key_def)
    from map_of_edges_wf[OF wf this] obtain adj where
      adj: "map_of (edges g) u = Some adj" "dict_keys adj = successors g u" by blast
    have vs: "\<forall>v \<in> set (dict_keys adj). has_edge g u v"
      using adj(2) by (simp add: has_edge_def)
    from bfs_for_inv[OF wf inv vs, of "{}"] obtain st' distance' pre' q' where r:
      "bfs_for u (dict_keys adj) ((st, distance, pre), q) = Inr ((st', distance', pre'), q')"
      "bfs_inv g s (map_of st') (map_of distance') (map_of pre') (u # q')"
      "\<forall>v \<in> set (dict_keys adj). map_of st' v \<noteq> Some UNEXPLORED \<and>
                 dv (map_of distance') v \<le> dv (map_of distance') u + 1"
      by auto
    have nb: "\<And>v. has_edge g u v \<Longrightarrow> map_of st' v \<noteq> Some UNEXPLORED \<and>
                 dv (map_of distance') v \<le> dv (map_of distance') u + 1"
      using r(3) adj(2) by (simp add: has_edge_def)
    have inv': "bfs_inv g s (map_of (AList.update u FINISHED st')) (map_of distance')
                  (map_of pre') q'"
      using bfs_inv_finish[OF r(2) nb] by (simp add: update_conv')
    have "unexplored st' + length q' = unexplored st + length q"
      by (rule bfs_for_measure[OF r(1)])
    moreover have "unexplored (AList.update u FINISHED st') \<le> unexplored st'"
      using unexplored_update_le[of u FINISHED st'] by simp
    ultimately have m: "unexplored (AList.update u FINISHED st') + length q'
        < unexplored st + length queue"
      using Cons by simp
    from less.hyps[OF m inv'] obtain st'' distance'' pre'' where
      "bfs_while g ((AList.update u FINISHED st', distance', pre'), q') =
         Inr (st'', distance'', pre'')"
      "bfs_inv g s (map_of st'') (map_of distance'') (map_of pre'') []"
      by blast
    then show ?thesis using Cons adj(1) r(1) by auto
  qed
qed

lemma bfs_result_inv:
  assumes wf: "wf_graph g" and s: "has_key (nodes g) s"
  shows "\<exists>st distance pre. bfs g s = Inr (st, distance, pre) \<and>
           bfs_inv g s (map_of st) (map_of distance) (map_of pre) []"
  unfolding bfs_def Let_def
  using bfs_while_inv[OF wf bfs_inv_init] s
  by (simp add: has_key_def)

lemma bfs_final_state:
  assumes inv: "bfs_inv g s S D P []" and v: "S v \<noteq> None"
  shows "S v = Some UNEXPLORED \<or> S v = Some FINISHED"
proof -
  have "S v \<noteq> Some DISCOVERED" using bfs_invD(12)[OF inv, of v] by simp
  with v show ?thesis by (cases "S v") (auto intro: vstate.exhaust)
qed

lemma bfs_final_reachable:
  assumes wf: "wf_graph g" and inv: "bfs_inv g s S D P []"
    and r: "(s, v) \<in> (edge_rel g)\<^sup>*"
  shows "S v = Some FINISHED"
  using r
proof (induction rule: rtrancl_induct)
  case base
  show ?case using bfs_final_state[OF inv bfs_invD(4)[OF inv]] bfs_invD(5)[OF inv] by simp
next
  case (step y z)
  then have e: "has_edge g y z" by (simp add: edge_rel_def)
  from bfs_invD(16)[OF inv step.IH e] have "S z \<noteq> Some UNEXPLORED" by simp
  moreover have "S z \<noteq> None"
    using has_edge_in_nodes(2)[OF wf e] bfs_invD(1)[OF inv] by blast
  ultimately show ?case using bfs_final_state[OF inv, of z] by simp
qed

lemma enat_plus_one_eq:
  "(x::enat) + 1 = enat (Suc n) \<longleftrightarrow> x = enat n"
  by (cases x) (simp_all add: one_enat_def)

lemma enat_plus_one_ne_zero: "(x::enat) + 1 \<noteq> enat 0"
  by (cases x) (simp_all add: one_enat_def)

lemma get_shortest_path_loop_chain:
  assumes inv: "bfs_inv g s S D (map_of pre) L"
  shows "S c \<noteq> None \<Longrightarrow> S c \<noteq> Some UNEXPLORED \<Longrightarrow> dv D c = enat n \<Longrightarrow>
     \<exists>chain. get_shortest_path_loop pre (Some c) acc = Some (Inr (acc @ chain)) \<and>
        chain \<noteq> [] \<and> hd chain = c \<and> last chain = s \<and> length chain = Suc n \<and>
        successively (\<lambda>x y. has_edge g y x \<and> map_of pre x = Some (Some y)) chain"
proof (induction n arbitrary: c acc)
  case 0
  note i = bfs_invD[OF inv]
  have "c = s"
  proof (rule ccontr)
    assume "c \<noteq> s"
    from i(10)[OF "0.prems"(1,2) this] obtain u where "dv D c = dv D u + 1" by blast
    with "0.prems"(3) show False using enat_plus_one_ne_zero[of "dv D u"] by simp
  qed
  then have "get_shortest_path_loop pre (Some c) acc = Some (Inr (acc @ [s]))"
    using i(7) by simp
  then show ?case using \<open>c = s\<close> by (intro exI[of _ "[s]"]) simp
next
  case (Suc n)
  note i = bfs_invD[OF inv]
  have cs: "c \<noteq> s"
  proof
    assume "c = s"
    with i(6) have "dv D c = 0" by (simp add: dv_def)
    with Suc.prems(3) show False by (simp add: zero_enat_def)
  qed
  from i(10)[OF Suc.prems(1,2) cs] obtain u where u: "map_of pre c = Some (Some u)"
    "has_edge g u c" "S u \<noteq> None" "S u \<noteq> Some UNEXPLORED" "dv D c = dv D u + 1" by blast
  from u(5) Suc.prems(3) have "dv D u + 1 = enat (Suc n)" by simp
  then have "dv D u = enat n" by (simp only: enat_plus_one_eq)
  from Suc.IH[OF u(3,4) this, of "acc @ [c]"] obtain chain where ch:
    "get_shortest_path_loop pre (Some u) (acc @ [c]) = Some (Inr ((acc @ [c]) @ chain))"
    "chain \<noteq> []" "hd chain = u" "last chain = s" "length chain = Suc n"
    "successively (\<lambda>x y. has_edge g y x \<and> map_of pre x = Some (Some y)) chain"
    by blast
  have "get_shortest_path_loop pre (Some c) acc = Some (Inr (acc @ (c # chain)))"
    using u(1) ch(1) by simp
  moreover have "successively (\<lambda>x y. has_edge g y x \<and> map_of pre x = Some (Some y)) (c # chain)"
    using ch(2,3,6) u(1,2) by (simp add: successively_Cons)
  ultimately show ?case using ch(2,4,5) by (intro exI[of _ "c # chain"]) simp
qed

subsection \<open>The example graphs are built by the interface\<close>

lemma build_edge_graph:
  "build True [AddEdge ''A'' ''B'' (Some [(''weight'', ''5'')]) None None] = Inr edge_graph"
  by (simp add: build_def init_graph_def add_edge_def add_node_def has_key_def dict_keys_def
      edge_graph_def Let_def)

lemma build_depth_graph:
  "build True [AddEdge ''A'' ''B'' None None None, AddEdge ''B'' ''C'' None None None,
               AddEdge ''A'' ''D'' None None None] = Inr depth_graph"
  by (simp add: build_def init_graph_def add_edge_def add_node_def has_key_def dict_keys_def
      depth_graph_def)

lemma build_cycle_graph:
  "build True [AddEdge ''A'' ''B'' None None None, AddEdge ''B'' ''C'' None None None,
               AddEdge ''C'' ''A'' None None None] = Inr cycle_graph"
  by (simp add: build_def init_graph_def add_edge_def add_node_def has_key_def dict_keys_def
      cycle_graph_def)

lemma wf_edge_graph: "wf_graph edge_graph"
  by (simp add: wf_graph_def edge_graph_def dict_keys_def)

lemma build_split_graph:
  "build True [AddEdge ''A'' ''B'' None None None, AddEdge ''C'' ''D'' None None None] =
     Inr split_graph"
  by (simp add: build_def init_graph_def add_edge_def add_node_def has_key_def dict_keys_def
      split_graph_def Let_def)

lemma wf_split_graph: "wf_graph split_graph"
  by (simp add: wf_graph_def split_graph_def dict_keys_def has_edge_def successors_def)

lemma successors_split_graph:
  "successors split_graph u =
     (if u = ''A'' then [''B''] else if u = ''C'' then [''D''] else [])"
  by (simp add: successors_def split_graph_def dict_keys_def)

lemma has_edge_split_graph:
  "has_edge split_graph u v \<longleftrightarrow> (u = ''A'' \<and> v = ''B'') \<or> (u = ''C'' \<and> v = ''D'')"
  by (auto simp: has_edge_def successors_split_graph)

lemma edge_rel_split_graph: "edge_rel split_graph = {(''A'', ''B''), (''C'', ''D'')}"
  unfolding edge_rel_def has_edge_split_graph by blast

lemma split_graph_unreachable: "(''A'', ''D'') \<notin> (edge_rel split_graph)\<^sup>*"
proof
  assume r: "(''A'', ''D'') \<in> (edge_rel split_graph)\<^sup>*"
  have "edge_rel split_graph `` {''A'', ''B''} \<subseteq> {''A'', ''B''}"
    unfolding edge_rel_def has_edge_split_graph by blast
  then have "(edge_rel split_graph)\<^sup>* `` {''A'', ''B''} = {''A'', ''B''}"
    by (rule Image_closed_trancl)
  moreover from r have "''D'' \<in> (edge_rel split_graph)\<^sup>* `` {''A'', ''B''}" by blast
  ultimately have "''D'' \<in> {''A'', ''B''}" by (simp only:)
  then show False by simp
qed

lemma split_graph_reachable: "(''C'', ''D'') \<in> (edge_rel split_graph)\<^sup>*"
proof -
  have "(''C'', ''D'') \<in> edge_rel split_graph"
    by (simp add: edge_rel_def has_edge_split_graph)
  then show ?thesis by (rule r_into_rtrancl)
qed

lemma get_descendants_loop_cycle:
  assumes "get_descendants_loop g stack descendants = Some y"
  shows "g = cycle_graph \<longrightarrow> stack \<in> {[''A''], [''B''], [''C'']} \<longrightarrow> False"
proof (rule get_descendants_loop.raw_induct
    [where P = "\<lambda>g stack descendants y.
                  g = cycle_graph \<longrightarrow> stack \<in> {[''A''], [''B''], [''C'']} \<longrightarrow> False",
     OF _ assms])
  fix loop :: "graph \<Rightarrow> node list \<Rightarrow> node list \<Rightarrow> (error + node list) option"
    and g stack descendants y
  assume IH: "\<And>g stack descendants y. loop g stack descendants = Some y \<Longrightarrow>
                g = cycle_graph \<longrightarrow> stack \<in> {[''A''], [''B''], [''C'']} \<longrightarrow> False"
    and step: "(if stack = [] then Some (Inr descendants)
                else case map_of (edges g) (last stack) of
                       None \<Rightarrow> Some (Inl KeyError)
                     | Some adj \<Rightarrow>
                         loop g (butlast stack @ dict_keys adj) (descendants @ dict_keys adj)) =
               Some y"
  show "g = cycle_graph \<longrightarrow> stack \<in> {[''A''], [''B''], [''C'']} \<longrightarrow> False"
  proof (intro impI)
    assume g: "g = cycle_graph" and st: "stack \<in> {[''A''], [''B''], [''C'']}"
    from st step g obtain stack' descendants' where
      "loop g stack' descendants' = Some y" "stack' \<in> {[''A''], [''B''], [''C'']}"
      by (auto simp: cycle_graph_def dict_keys_def)
    with IH g show False by blast
  qed
qed

lemma get_ascendants_loop_cycle:
  assumes "get_ascendants_loop g stack ascendants = Some y"
  shows "g = cycle_graph \<longrightarrow> stack \<in> {[''A''], [''B''], [''C'']} \<longrightarrow> False"
proof (rule get_ascendants_loop.raw_induct
    [where P = "\<lambda>g stack ascendants y.
                  g = cycle_graph \<longrightarrow> stack \<in> {[''A''], [''B''], [''C'']} \<longrightarrow> False",
     OF _ assms])
  fix loop :: "graph \<Rightarrow> node list \<Rightarrow> node list \<Rightarrow> (error + node list) option"
    and g stack ascendants y
  assume IH: "\<And>g stack ascendants y. loop g stack ascendants = Some y \<Longrightarrow>
                g = cycle_graph \<longrightarrow> stack \<in> {[''A''], [''B''], [''C'']} \<longrightarrow> False"
    and step: "(if stack = [] then Some (Inr ascendants)
                else let found = map fst (filter (\<lambda>(n, adj). has_key adj (last stack)) (edges g))
                     in loop g (butlast stack @ found) (ascendants @ found)) =
               Some y"
  show "g = cycle_graph \<longrightarrow> stack \<in> {[''A''], [''B''], [''C'']} \<longrightarrow> False"
  proof (intro impI)
    assume g: "g = cycle_graph" and st: "stack \<in> {[''A''], [''B''], [''C'']}"
    from st step g obtain stack' ascendants' where
      "loop g stack' ascendants' = Some y" "stack' \<in> {[''A''], [''B''], [''C'']}"
      by (auto simp: cycle_graph_def dict_keys_def has_key_def Let_def)
    with IH g show False by blast
  qed
qed


section \<open>The claims\<close>

text \<open>
  C1. \<open>max_depth\<close> does not return the maximum over all leaves. On the graph with the
  edges A \<rightarrow> B, B \<rightarrow> C and A \<rightarrow> D the only root is A and the leaves are C and D, in this
  order; the shortest path from A to C has two edges and the one from A to D has one,
  and \<open>max_depth\<close> returns 1: the entry of a root is reset to 0 for every leaf, so it
  holds the value of the last leaf only.
\<close>

theorem max_depth_keeps_last_leaf_only:
  "\<exists>g. build True [AddEdge ''A'' ''B'' None None None, AddEdge ''B'' ''C'' None None None,
                    AddEdge ''A'' ''D'' None None None] = Inr g \<and>
       roots g = [''A''] \<and> leaves g = [''C'', ''D''] \<and>
       get_shortest_path g ''A'' ''C'' = Some (Inr [''A'', ''B'', ''C'']) \<and>
       get_shortest_path g ''A'' ''D'' = Some (Inr [''A'', ''D'']) \<and>
       max_depth 10 g = Some (Inr 1)"
  unfolding build_depth_graph depth_graph_def
  by (simp add: max_depth_def is_acyclic_def dfs_def get_shortest_path_def bfs_def
      has_key_def dict_keys_def eval_nat_numeral zero_enat_def[symmetric] one_enat_def[symmetric])

text \<open>
  C2. On the graph with the single edge A \<rightarrow> B, B is discovered from A (its DFS-tree
  child), and \<open>dfs\<close> gives A the finished time 2 and B the finished time 3: the
  finished time of A is not greater than that of its descendant. Every call of
  \<open>dfs_visit\<close> works on its own copy of \<open>time\<close>.
\<close>

theorem dfs_finished_not_after_descendant:
  "\<exists>g S. build True [AddEdge ''A'' ''B'' (Some [(''weight'', ''5'')]) None None] = Inr g \<and>
     dfs 10 g = Inr S \<and>
     map_of (predecessor S) ''B'' = Some (Some ''A'') \<and>
     map_of (discovered S) ''A'' = Some 1 \<and> map_of (discovered S) ''B'' = Some 2 \<and>
     map_of (finished S) ''A'' = Some 2 \<and> map_of (finished S) ''B'' = Some 3"
  unfolding build_edge_graph edge_graph_def
  by (simp add: dfs_def dict_keys_def eval_nat_numeral)

text \<open>
  C3. \<open>get_descendants\<close> and \<open>get_ascendants\<close> do not return on the directed graph with
  the cycle A \<rightarrow> B \<rightarrow> C \<rightarrow> A: the stack always holds one node of the cycle, so the loop
  never finds it empty (\<open>None\<close> is the value of a loop that does not return).
\<close>

theorem get_descendants_diverges_on_cycle:
  "\<exists>g. build True [AddEdge ''A'' ''B'' None None None, AddEdge ''B'' ''C'' None None None,
                    AddEdge ''C'' ''A'' None None None] = Inr g \<and>
       get_descendants g ''A'' = None \<and> get_ascendants g ''A'' = None"
proof -
  have "get_descendants cycle_graph ''A'' = None"
    using get_descendants_loop_cycle[of cycle_graph "[''A'']" "[]"]
    by (cases "get_descendants_loop cycle_graph [''A''] []")
       (auto simp: get_descendants_def cycle_graph_def has_key_def dict_keys_def)
  moreover have "get_ascendants cycle_graph ''A'' = None"
    using get_ascendants_loop_cycle[of cycle_graph "[''A'']" "[]"]
    by (cases "get_ascendants_loop cycle_graph [''A''] []")
       (auto simp: get_ascendants_def cycle_graph_def has_key_def dict_keys_def)
  ultimately show ?thesis
    unfolding build_cycle_graph by simp
qed

text \<open>
  C5. On a well-formed graph, \<open>bfs\<close> from a present start node returns; in the
  distance mapping it returns, every edge (u, v) with a finite distance of u has
  \<open>distance[v] \<le> distance[u] + 1\<close>; a node has a finite distance exactly when it is
  reachable from the start node; and every unreachable node is left UNEXPLORED, with
  infinite distance and no predecessor.
\<close>

theorem bfs_triangle_and_unreachable:
  assumes "wf_graph g" and "has_key (nodes g) start_node_id"
  shows "\<exists>st distance pre. bfs g start_node_id = Inr (st, distance, pre) \<and>
     (\<forall>u v du. has_edge g u v \<and> map_of distance u = Some du \<and> du \<noteq> \<infinity> \<longrightarrow>
        (\<exists>dw. map_of distance v = Some dw \<and> dw \<le> du + 1)) \<and>
     (\<forall>v. has_key (nodes g) v \<longrightarrow>
        ((start_node_id, v) \<in> (edge_rel g)\<^sup>* \<longleftrightarrow>
           (\<exists>n. map_of distance v = Some (enat n)))) \<and>
     (\<forall>v. has_key (nodes g) v \<and> (start_node_id, v) \<notin> (edge_rel g)\<^sup>* \<longrightarrow>
        map_of st v = Some UNEXPLORED \<and> map_of distance v = Some \<infinity> \<and>
        map_of pre v = Some None)"
proof -
  from bfs_result_inv[OF assms] obtain st distance pre where
    res: "bfs g start_node_id = Inr (st, distance, pre)"
    and inv: "bfs_inv g start_node_id (map_of st) (map_of distance) (map_of pre) []"
    by blast
  note i = bfs_invD[OF inv]
  let ?S = "map_of st" and ?D = "map_of distance"
  have unreach: "?S v = Some UNEXPLORED \<and> ?D v = Some \<infinity> \<and> map_of pre v = Some None"
    if "has_key (nodes g) v" "(start_node_id, v) \<notin> (edge_rel g)\<^sup>*" for v
  proof -
    from that(1) have "?S v \<noteq> None" using i(1) by (auto simp: has_key_def)
    with i(9)[of v] that(2) have "?S v = Some UNEXPLORED" by blast
    with i(8)[of v] show ?thesis by simp
  qed
  have tri: "\<exists>dw. ?D v = Some dw \<and> dw \<le> du + 1"
    if "has_edge g u v" "?D u = Some du" "du \<noteq> \<infinity>" for u v du
  proof -
    have uN: "?S u \<noteq> None" using has_edge_in_nodes(1)[OF assms(1) that(1)] i(1) by blast
    have "?S u \<noteq> Some UNEXPLORED" using i(8)[of u] that(2,3) by auto
    with bfs_final_state[OF inv uN] have "?S u = Some FINISHED" by simp
    from i(16)[OF this that(1)] have le: "dv ?D v \<le> dv ?D u + 1" by simp
    have "v \<in> dom ?D" using has_edge_in_nodes(2)[OF assms(1) that(1)] i(2) by simp
    then obtain dw where "?D v = Some dw" by blast
    with le that(2) show ?thesis by (simp add: dv_def)
  qed
  have fin: "((start_node_id, v) \<in> (edge_rel g)\<^sup>* \<longleftrightarrow> (\<exists>n. ?D v = Some (enat n)))"
    if "has_key (nodes g) v" for v
  proof
    assume "(start_node_id, v) \<in> (edge_rel g)\<^sup>*"
    from bfs_final_reachable[OF assms(1) inv this] have f: "?S v = Some FINISHED" .
    then have "dv ?D v \<noteq> \<infinity>" using i(9)[of v] by simp
    moreover have "v \<in> dom ?D" using f i(1,2) by auto
    ultimately show "\<exists>n. ?D v = Some (enat n)" by (auto simp: dv_def)
  next
    assume "\<exists>n. ?D v = Some (enat n)"
    then have "?D v \<noteq> Some \<infinity>" by auto
    then show "(start_node_id, v) \<in> (edge_rel g)\<^sup>*"
      using unreach[OF that] by blast
  qed
  show ?thesis using res unreach tri fin by blast
qed

theorem bfs_triangle_and_unreachable_witness:
  "wf_graph split_graph \<and> has_key (nodes split_graph) ''A'' \<and>
   has_edge split_graph ''A'' ''B'' \<and> (''A'', ''D'') \<notin> (edge_rel split_graph)\<^sup>* \<and>
   bfs split_graph ''A'' =
     Inr ([(''A'', FINISHED), (''B'', FINISHED), (''C'', UNEXPLORED), (''D'', UNEXPLORED)],
          [(''A'', 0), (''B'', 1), (''C'', \<infinity>), (''D'', \<infinity>)],
          [(''A'', None), (''B'', Some ''A''), (''C'', None), (''D'', None)])"
proof -
  have k: "has_key (nodes split_graph) ''A''"
    by (simp add: split_graph_def has_key_def dict_keys_def)
  have e: "has_edge split_graph ''A'' ''B''"
    by (simp add: split_graph_def has_edge_def successors_def dict_keys_def)
  have b: "bfs split_graph ''A'' =
     Inr ([(''A'', FINISHED), (''B'', FINISHED), (''C'', UNEXPLORED), (''D'', UNEXPLORED)],
          [(''A'', 0), (''B'', 1), (''C'', \<infinity>), (''D'', \<infinity>)],
          [(''A'', None), (''B'', Some ''A''), (''C'', None), (''D'', None)])"
    by (simp add: bfs_def split_graph_def dict_keys_def)
  from bfs_triangle_and_unreachable[OF wf_split_graph k] wf_split_graph k e
    split_graph_unreachable b
  show ?thesis by simp
qed

text \<open>
  C6. On a well-formed graph, \<open>get_shortest_path\<close> raises ValueError when the start or
  the end node is absent, and otherwise returns a sequence: \<open>[s]\<close> when the end node is
  the start node, the empty sequence when the end node is unreachable, and when it is
  reachable a path from s to t along edges of the graph, in which every node is the BFS
  predecessor of the next and whose number of edges is the BFS distance of t.
\<close>

theorem get_shortest_path_result:
  assumes "wf_graph g"
  shows "(\<not> has_key (nodes g) s \<or> \<not> has_key (nodes g) t \<longrightarrow>
            get_shortest_path g s t = Some (Inl ValueError)) \<and>
         (has_key (nodes g) s \<and> has_key (nodes g) t \<longrightarrow>
            (\<exists>path st distance pre.
                get_shortest_path g s t = Some (Inr path) \<and>
                bfs g s = Inr (st, distance, pre) \<and>
                (t = s \<longrightarrow> path = [s]) \<and>
                ((s, t) \<notin> (edge_rel g)\<^sup>* \<longrightarrow> path = []) \<and>
                ((s, t) \<in> (edge_rel g)\<^sup>* \<longrightarrow>
                   is_path g s path t \<and>
                   successively (\<lambda>x y. map_of pre y = Some (Some x)) path \<and>
                   map_of distance t = Some (enat (length path - 1)))))"
proof (intro conjI impI)
  assume "\<not> has_key (nodes g) s \<or> \<not> has_key (nodes g) t"
  then show "get_shortest_path g s t = Some (Inl ValueError)"
    by (auto simp: get_shortest_path_def)
next
  assume st: "has_key (nodes g) s \<and> has_key (nodes g) t"
  from bfs_result_inv[OF assms, of s] st obtain sta distance pre where
    res: "bfs g s = Inr (sta, distance, pre)"
    and inv: "bfs_inv g s (map_of sta) (map_of distance) (map_of pre) []"
    by blast
  note i = bfs_invD[OF inv]
  let ?S = "map_of sta" and ?D = "map_of distance"
  have tS: "?S t \<noteq> None" and tD: "t \<in> dom ?D" using st i(1,2) by (auto simp: has_key_def)
  then obtain d where d: "?D t = Some d" by blast
  show "\<exists>path st distance pre.
                get_shortest_path g s t = Some (Inr path) \<and>
                bfs g s = Inr (st, distance, pre) \<and>
                (t = s \<longrightarrow> path = [s]) \<and>
                ((s, t) \<notin> (edge_rel g)\<^sup>* \<longrightarrow> path = []) \<and>
                ((s, t) \<in> (edge_rel g)\<^sup>* \<longrightarrow>
                   is_path g s path t \<and>
                   successively (\<lambda>x y. map_of pre y = Some (Some x)) path \<and>
                   map_of distance t = Some (enat (length path - 1)))"
  proof (cases "(s, t) \<in> (edge_rel g)\<^sup>*")
    case False
    then have "?S t = Some UNEXPLORED" using i(9)[of t] tS by blast
    then have "d = \<infinity>" using i(8)[of t] d by simp
    then have "get_shortest_path g s t = Some (Inr [])"
      using st res d by (simp add: get_shortest_path_def)
    moreover have "t \<noteq> s" using False by auto
    ultimately show ?thesis using res False by auto
  next
    case True
    from bfs_final_reachable[OF assms inv True] have f: "?S t = Some FINISHED" .
    then have "dv ?D t \<noteq> \<infinity>" using i(9)[of t] by simp
    then obtain n where n: "d = enat n" using d by (auto simp: dv_def)
    then have dn: "dv ?D t = enat n" using d by (simp add: dv_def)
    from get_shortest_path_loop_chain[OF inv, of t n "[]"] f dn obtain chain where ch:
      "get_shortest_path_loop pre (Some t) [] = Some (Inr chain)"
      "chain \<noteq> []" "hd chain = t" "last chain = s" "length chain = Suc n"
      "successively (\<lambda>x y. has_edge g y x \<and> map_of pre x = Some (Some y)) chain"
      by auto
    let ?path = "rev chain"
    have r: "get_shortest_path g s t = Some (Inr ?path)"
      using st res d n ch(1) by (simp add: get_shortest_path_def)
    have sc: "successively (\<lambda>x y. has_edge g x y \<and> map_of pre y = Some (Some x)) ?path"
      using ch(6) by simp
    have p1: "is_path g s ?path t"
      unfolding is_path_def
      using ch(2,3,4) successively_mono[OF sc, of "has_edge g"]
      by (simp add: hd_rev last_rev)
    have p2: "successively (\<lambda>x y. map_of pre y = Some (Some x)) ?path"
      using successively_mono[OF sc, of "\<lambda>x y. map_of pre y = Some (Some x)"] by simp
    have p3: "map_of distance t = Some (enat (length ?path - 1))"
      using d n ch(5) by simp
    have p4: "t = s \<longrightarrow> ?path = [s]"
    proof
      assume ts: "t = s"
      then have "n = 0" using i(6) d n by (simp add: zero_enat_def)
      with ch(5) ch(2,3) ts have "chain = [s]" by (cases chain) auto
      then show "?path = [s]" by simp
    qed
    show ?thesis using r res True p1 p2 p3 p4 by blast
  qed
qed

theorem get_shortest_path_result_witness:
  "wf_graph split_graph \<and>
   \<not> has_key (nodes split_graph) ''Z'' \<and>
   get_shortest_path split_graph ''A'' ''Z'' = Some (Inl ValueError) \<and>
   has_key (nodes split_graph) ''A'' \<and> has_key (nodes split_graph) ''C'' \<and>
   has_key (nodes split_graph) ''D'' \<and>
   get_shortest_path split_graph ''A'' ''A'' = Some (Inr [''A'']) \<and>
   (''A'', ''D'') \<notin> (edge_rel split_graph)\<^sup>* \<and>
   get_shortest_path split_graph ''A'' ''D'' = Some (Inr []) \<and>
   (''C'', ''D'') \<in> (edge_rel split_graph)\<^sup>* \<and>
   get_shortest_path split_graph ''C'' ''D'' = Some (Inr [''C'', ''D''])"
proof -
  have k: "\<not> has_key (nodes split_graph) ''Z''" "has_key (nodes split_graph) ''A''"
    "has_key (nodes split_graph) ''C''" "has_key (nodes split_graph) ''D''"
    by (simp_all add: split_graph_def has_key_def dict_keys_def)
  have p: "get_shortest_path split_graph ''A'' ''Z'' = Some (Inl ValueError)"
    "get_shortest_path split_graph ''A'' ''A'' = Some (Inr [''A''])"
    "get_shortest_path split_graph ''A'' ''D'' = Some (Inr [])"
    "get_shortest_path split_graph ''C'' ''D'' = Some (Inr [''C'', ''D''])"
    by (simp_all add: get_shortest_path_def bfs_def split_graph_def has_key_def dict_keys_def
        zero_enat_def[symmetric] one_enat_def[symmetric])
  from get_shortest_path_result[OF wf_split_graph, of "''C''" "''D''"] wf_split_graph k p
    split_graph_unreachable split_graph_reachable
  show ?thesis by simp
qed

text \<open>
  C7. On a well-formed graph, \<open>add_edge\<close> on a pair (u, v) that already has an edge
  returns the stored attribute mapping and leaves the whole graph unchanged, whatever
  the new payload and the attribute seeds for the end points are; \<open>add_node\<close> on a
  present identifier returns the stored attributes and leaves the graph unchanged.
\<close>

theorem add_edge_add_node_keep_first_payload:
  assumes "wf_graph g"
  shows "(map_of (edges g) u = Some adj \<and> map_of adj v = Some a \<longrightarrow>
            add_edge u v attrs2 ua va g = Inr (g, a)) \<and>
         (map_of (nodes g) n = Some b \<longrightarrow> add_node n attrs g = (g, b))"
proof (intro conjI impI)
  assume e: "map_of (edges g) u = Some adj \<and> map_of adj v = Some a"
  then have "has_edge g u v"
    using in_dict_keys_iff[of v adj] by (auto simp: has_edge_iff)
  from has_edge_in_nodes[OF assms this] have "ensure_nodes u v ua va g = g"
    by (simp add: ensure_nodes_def add_node_present has_key_def)
  then show "add_edge u v attrs2 ua va g = Inr (g, a)"
    using e by (simp add: add_edge_link link_nodes_old)
next
  assume "map_of (nodes g) n = Some b"
  then show "add_node n attrs g = (g, b)" by (rule add_node_old)
qed


theorem add_edge_add_node_keep_first_payload_witness:
  "wf_graph edge_graph \<and>
   add_edge ''A'' ''B'' (Some [(''weight'', ''7'')]) None None edge_graph =
     Inr (edge_graph, [(''weight'', ''5'')]) \<and>
   add_node ''A'' (Some [(''color'', ''red'')]) edge_graph = (edge_graph, [])"
  using add_edge_add_node_keep_first_payload[OF wf_edge_graph,
      of "''A''" "[(''B'', [(''weight'', ''5'')])]" "''B''" "[(''weight'', ''5'')]"
         "Some [(''weight'', ''7'')]" None None "''A''" "[]" "Some [(''color'', ''red'')]"]
    wf_edge_graph
  by (simp add: edge_graph_def)

text \<open>
  C8. After every sequence of \<open>add_node\<close> and \<open>add_edge\<close> calls on a fresh directed
  graph, the root list holds, each once, exactly the nodes that no edge targets, and
  the leaf list exactly the nodes that no edge leaves.
\<close>

theorem roots_leaves_exact_after_build:
  assumes "build True cs = Inr g"
  shows "distinct (roots g) \<and>
     set (roots g) = {n \<in> set (dict_keys (nodes g)). \<not> (\<exists>u. has_edge g u n)} \<and>
     distinct (leaves g) \<and>
     set (leaves g) = {n \<in> set (dict_keys (nodes g)). \<not> (\<exists>v. has_edge g n v)}"
proof -
  have "roots_leaves_exact g"
    using run_calls_roots_leaves[OF wf_init_graph _ roots_leaves_exact_init, of True False None cs g]
      assms by (simp add: build_def init_graph_def)
  then show ?thesis by (simp add: roots_leaves_exact_def)
qed


theorem roots_leaves_exact_after_build_witness:
  "build True [AddEdge ''A'' ''B'' (Some [(''weight'', ''5'')]) None None] = Inr edge_graph \<and>
   distinct (roots edge_graph) \<and>
   set (roots edge_graph) =
     {n \<in> set (dict_keys (nodes edge_graph)). \<not> (\<exists>u. has_edge edge_graph u n)} \<and>
   distinct (leaves edge_graph) \<and>
   set (leaves edge_graph) =
     {n \<in> set (dict_keys (nodes edge_graph)). \<not> (\<exists>v. has_edge edge_graph n v)}"
  using roots_leaves_exact_after_build[OF build_edge_graph] build_edge_graph
  by blast

text \<open>
  C10. On a well-formed graph, \<open>bfs\<close> from an identifier that is not in the node table
  raises KeyError: the start node is queued without a check, and the lookup
  \<open>self.edges[u]\<close> of the first iteration fails.
\<close>

theorem bfs_absent_start_KeyError:
  "wf_graph g \<Longrightarrow> \<not> has_key (nodes g) start_node_id \<Longrightarrow> bfs g start_node_id = Inl KeyError"
proof -
  assume wf: "wf_graph g" and absent: "\<not> has_key (nodes g) start_node_id"
  then have "start_node_id \<notin> fst ` set (edges g)"
    by (auto simp: wf_graph_def has_key_def dict_keys_def)
  then have "map_of (edges g) start_node_id = None"
    by (simp add: map_of_eq_None_iff)
  then show ?thesis by (simp add: bfs_def)
qed


theorem bfs_absent_start_KeyError_witness:
  "wf_graph edge_graph \<and> \<not> has_key (nodes edge_graph) ''Z'' \<and>
   bfs edge_graph ''Z'' = Inl KeyError"
proof -
  have absent: "\<not> has_key (nodes edge_graph) ''Z''"
    by (simp add: edge_graph_def has_key_def dict_keys_def)
  from bfs_absent_start_KeyError[OF wf_edge_graph absent] wf_edge_graph absent
  show ?thesis by simp
qed

end
